theory Spec2Isabelle
  imports Main "HOL-Library.AList" "HOL-Library.Sublist" "HOL-Library.Word"
begin

section \<open>Addresses\<close>

text \<open>
  The editor of \<^verbatim>\<open>pyblock/editor.py\<close> addresses a block by the 4-tuple returned by
  \<^verbatim>\<open>tools.block_to_id_index\<close>: region coordinate, chunk coordinate inside the region,
  vertical level of the section, index of the block inside the section.
\<close>

datatype error =
  AddressingError | StorageReadError | CommitMaterializationError | StorageWriteError | KeyError

type_synonym coord = "int \<times> int"
type_synonym chunk_id = "coord \<times> coord"
type_synonym section_id = "coord \<times> coord \<times> int"
type_synonym address = "coord \<times> coord \<times> int \<times> int"

text \<open>
  The fixed extents of the storage format: blocks along a chunk edge, chunks along a
  region edge, blocks in the height of a section, and the valid range of vertical levels.
\<close>

record extents =
  chunk_extent :: int
  region_chunks :: int
  section_height :: int
  min_level :: int
  max_level :: int

definition valid_extents :: "extents \<Rightarrow> bool" where
  "valid_extents E \<longleftrightarrow> 0 < chunk_extent E \<and> 0 < region_chunks E \<and> 0 < section_height E"

text \<open>
  Modelled from the spec: \<^verbatim>\<open>tools.block_to_id_index\<close> is not part of the sources at hand.
  The spec (3, 4.1) fixes: region and chunk ids by floor division of the world coordinates
  by the region and chunk extents, the chunk id relative to its region, the vertical
  level by floor division of \<open>y\<close>, an intra-section index in \<open>[0, section_volume)\<close>, and
  failure exactly when the vertical level is outside the valid range. HOL's \<open>div\<close> and
  \<open>mod\<close> on \<open>int\<close> are Python's \<^verbatim>\<open>//\<close> and \<^verbatim>\<open>%\<close> for a positive divisor. The index
  orders the blocks of a section by \<open>y\<close>, then \<open>z\<close>, then \<open>x\<close>.
\<close>

definition block_to_id_index :: "extents \<Rightarrow> int \<Rightarrow> int \<Rightarrow> int \<Rightarrow> error + address" where
  "block_to_id_index E x y z =
     (let c = chunk_extent E; r = region_chunks E; h = section_height E;
          region_coord = (x div (c * r), z div (c * r));
          chunk_coord = ((x div c) mod r, (z div c) mod r);
          ylevel = y div h;
          block_index = (y mod h) * (c * c) + (z mod c) * c + x mod c
      in if ylevel < min_level E \<or> max_level E < ylevel then Inl AddressingError
         else Inr (region_coord, chunk_coord, ylevel, block_index))"

text \<open>Modelled from the spec: the recomposition of the absolute position from an address
  (8, address round-trip): region, chunk, vertical level and intra-section index back to
  \<open>(x, y, z)\<close>.\<close>

definition recompose :: "extents \<Rightarrow> address \<Rightarrow> int \<times> int \<times> int" where
  "recompose E a =
     (case a of ((rx, rz), (cx, cz), ylevel, block_index) \<Rightarrow>
        (let c = chunk_extent E; r = region_chunks E; h = section_height E
         in ((rx * r + cx) * c + block_index mod c,
             ylevel * h + block_index div (c * c),
             (rz * r + cz) * c + (block_index div c) mod c)))"

text \<open>The addresses the indexer can return.\<close>

definition address_in_range :: "extents \<Rightarrow> address \<Rightarrow> bool" where
  "address_in_range E a =
     (case a of ((rx, rz), (cx, cz), ylevel, block_index) \<Rightarrow>
        0 \<le> cx \<and> cx < region_chunks E \<and> 0 \<le> cz \<and> cz < region_chunks E \<and>
        min_level E \<le> ylevel \<and> ylevel \<le> max_level E \<and>
        0 \<le> block_index \<and>
        block_index < section_height E * (chunk_extent E * chunk_extent E))"

text \<open>The extents of the storage format the program edits.\<close>

definition anvil :: extents where
  "anvil = \<lparr>chunk_extent = 16, region_chunks = 32, section_height = 16,
            min_level = -4, max_level = 19\<rparr>"

section \<open>Collaborators\<close>

text \<open>
  The editor works on blocks, sections, chunks and regions of the package \<^verbatim>\<open>pyblock\<close>.
  A block is an opaque value (type variable \<open>'b\<close>). A block entity is an NBT compound of
  which the editor reads and writes the fields \<^verbatim>\<open>x\<close>, \<^verbatim>\<open>y\<close>, \<^verbatim>\<open>z\<close> and reads \<^verbatim>\<open>id\<close>;
  the rest of the compound is the opaque \<open>payload\<close>.
\<close>

record 'p entity =
  pos_x :: int
  pos_y :: int
  pos_z :: int
  entity_id :: string
  payload :: 'p

text \<open>
  Modelled from the spec: the class \<^verbatim>\<open>pyblock.Section\<close> is not part of the sources at
  hand. The spec (3, 6) gives it as a voxel container with \<open>get(intra_index)\<close>,
  \<open>set(intra_index, value)\<close>, where a \<open>set\<close> replaces the value at one index only, and
  \<open>get_nbt()\<close>, the payload handed to the chunk.
\<close>

type_synonym 'b section_data = "int \<Rightarrow> 'b"

definition section_get_block :: "'b section_data \<Rightarrow> int \<Rightarrow> 'b" where
  "section_get_block s i = s i"

definition section_set_block :: "'b section_data \<Rightarrow> 'b \<Rightarrow> int \<Rightarrow> 'b section_data" where
  "section_set_block s b i = s(i := b)"

definition section_get_nbt :: "'b section_data \<Rightarrow> 'b section_data" where
  "section_get_nbt s = s"

text \<open>
  A chunk: the payload of its sections by vertical level, and its block entities
  (\<^verbatim>\<open>chunk.nbt_data["block_entities"]\<close>).
\<close>

record ('b, 'p) chunk =
  nbt_sections :: "int \<rightharpoonup> 'b section_data"
  block_entities :: "'p entity list"

text \<open>
  Modelled from the spec: \<^verbatim>\<open>Chunk.set_section\<close> is not part of the sources at hand; the
  spec (4.4) has it replace the section payload of one vertical level.
\<close>

definition chunk_set_section :: "('b, 'p) chunk \<Rightarrow> int \<Rightarrow> 'b section_data \<Rightarrow> ('b, 'p) chunk" where
  "chunk_set_section c ylevel nbt = c\<lparr>nbt_sections := (nbt_sections c)(ylevel \<mapsto> nbt)\<rparr>"

type_synonym bytes = "8 word list"

text \<open>The calls the editor makes on the storage collaborator, in the order it makes them.\<close>

datatype call =
  OpenRegion string coord
  | ReadChunk string coord coord
  | GetChunk string coord coord
  | WriteRegion string coord "(coord \<times> bytes) list"

fun is_write :: "call \<Rightarrow> bool" where
  "is_write (WriteRegion p rc m) = True"
| "is_write c = False"

text \<open>
  The functions of \<^verbatim>\<open>pyblock\<close> the editor calls and whose code is not at hand are
  parameters: the indexer \<^verbatim>\<open>tools.block_to_id_index\<close>, the constructor
  \<^verbatim>\<open>Region(path, region_coord)\<close> on the storage \<open>'s\<close> giving a region handle \<open>'r\<close>,
  \<^verbatim>\<open>Region.read_chunk\<close>, \<^verbatim>\<open>Region.get_chunk\<close>, \<^verbatim>\<open>Chunk.get_bytes\<close> and
  \<^verbatim>\<open>Region.write\<close>. Each may raise.
\<close>

record ('b, 'p, 's, 'r) collab =
  indexer :: "int \<Rightarrow> int \<Rightarrow> int \<Rightarrow> error + address"
  region_open :: "'s \<Rightarrow> string \<Rightarrow> coord \<Rightarrow> error + 'r"
  region_read_chunk :: "'r \<Rightarrow> coord \<Rightarrow> error + ('b, 'p) chunk"
  region_get_chunk :: "'r \<Rightarrow> coord \<Rightarrow> error + ('b, 'p) chunk"
  chunk_get_bytes :: "('b, 'p) chunk \<Rightarrow> 'p entity list \<Rightarrow> error + bytes"
  region_write :: "'s \<Rightarrow> 'r \<Rightarrow> (coord \<times> bytes) list \<Rightarrow> (error + unit) \<times> 's"

text \<open>
  What lies outside an editor object: the storage, the calls made on it so far, and the
  \<^verbatim>\<open>Section\<close> objects, each with an identity (a reference) and mutable contents.
\<close>

record ('b, 's) world =
  disk :: 's
  calls :: "call list"
  heap :: "nat \<Rightarrow> 'b section_data"
  next_ref :: nat

text \<open>
  Modelled from the spec: \<^verbatim>\<open>Chunk.get_section\<close> is not part of the sources at hand. By
  the spec (3) the section it returns is a copy of its own: a new object each time, made
  from the payload of the vertical level. A chunk without that level raises.
\<close>

definition chunk_get_section ::
  "('b, 'p) chunk \<Rightarrow> int \<Rightarrow> ('b, 's) world \<Rightarrow> (error + nat) \<times> ('b, 's) world" where
  "chunk_get_section c ylevel w =
     (case nbt_sections c ylevel of
        None \<Rightarrow> (Inl StorageReadError, w)
      | Some s \<Rightarrow>
          (Inr (next_ref w), w\<lparr>heap := (heap w)(next_ref w := s), next_ref := Suc (next_ref w)\<rparr>))"

section \<open>The editor\<close>

text \<open>
  The attributes of \<^verbatim>\<open>Editor\<close>. Dictionaries the code iterates over are association
  lists in insertion order; the section caches, only looked up, are maps to references.
\<close>

record ('b, 'p) editor =
  path :: string
  blocks_map :: "(section_id \<times> ('b \<times> int) list) list"
  sections :: "section_id \<rightharpoonup> nat"
  chunks :: "(chunk_id \<times> ('b, 'p) chunk) list"
  write_sections :: "section_id \<rightharpoonup> nat"
  entities :: "(chunk_id \<times> 'p entity list) list"

type_synonym ('b, 'p, 's) state = "('b, 's) world \<times> ('b, 'p) editor"

text \<open>
  \<^verbatim>\<open>pathlib.Path\<close> on a POSIX system, as far as \<^verbatim>\<open>__init__\<close> uses it: a path is a
  root (\<^verbatim>\<open>/\<close>, or \<^verbatim>\<open>//\<close> when the string starts with exactly two slashes) and the
  components between the slashes, without the empty ones and the \<^verbatim>\<open>.\<close> ones; as a string
  it is the root followed by the components joined by slashes, or \<^verbatim>\<open>.\<close> when there is
  neither root nor component. \<^verbatim>\<open>Path(path) / "region"\<close> adds a last component.
\<close>

fun split_slash :: "string \<Rightarrow> string list" where
  "split_slash [] = [[]]"
| "split_slash (c # cs) =
     (if c = CHR ''/'' then [] # split_slash cs
      else (case split_slash cs of [] \<Rightarrow> [[c]] | x # xs \<Rightarrow> (c # x) # xs))"

fun join_slash :: "string list \<Rightarrow> string" where
  "join_slash [] = []"
| "join_slash [x] = x"
| "join_slash (x # y # ys) = x @ ''/'' @ join_slash (y # ys)"

definition path_root :: "string \<Rightarrow> string" where
  "path_root p =
     (if take 2 p = ''//'' \<and> take 3 p \<noteq> ''///'' then ''//''
      else if take 1 p = ''/'' then ''/'' else [])"

definition path_parts :: "string \<Rightarrow> string list" where
  "path_parts p = filter (\<lambda>c. c \<noteq> [] \<and> c \<noteq> ''.'') (split_slash p)"

definition path_str :: "string \<Rightarrow> string list \<Rightarrow> string" where
  "path_str root parts = (if root = [] \<and> parts = [] then ''.'' else root @ join_slash parts)"

definition Editor :: "string \<Rightarrow> ('b, 'p) editor" where
  "Editor p =
     \<lparr>path = (if suffix ''region'' p then path_str (path_root p) (path_parts p)
              else path_str (path_root p) (path_parts p @ [''region''])),
      blocks_map = [], sections = Map.empty, chunks = [],
      write_sections = Map.empty, entities = []\<rparr>"

text \<open>A \<^verbatim>\<open>for\<close> loop whose body may raise: the loop stops at the first exception, and the
  state is the one reached then.\<close>

fun forM :: "('a \<Rightarrow> 'st \<Rightarrow> (error + unit) \<times> 'st) \<Rightarrow> 'a list \<Rightarrow> 'st \<Rightarrow> (error + unit) \<times> 'st" where
  "forM f [] s = (Inr (), s)"
| "forM f (x # xs) s =
     (case f x s of
        (Inl e, s') \<Rightarrow> (Inl e, s')
      | (Inr u, s') \<Rightarrow> forM f xs s')"

text \<open>\<^verbatim>\<open>if k in d: d[k].append(v) else: d[k] = [v]\<close>, which is also what
  \<^verbatim>\<open>d[k].append(v)\<close> does on a \<^verbatim>\<open>defaultdict(list)\<close>.\<close>

definition dict_append :: "'k \<Rightarrow> 'v \<Rightarrow> ('k \<times> 'v list) list \<Rightarrow> ('k \<times> 'v list) list" where
  "dict_append k v d =
     (case map_of d k of
        Some vs \<Rightarrow> AList.update k (vs @ [v]) d
      | None \<Rightarrow> AList.update k [v] d)"

definition py_range :: "int \<Rightarrow> int list" where
  "py_range n = [0..n - 1]"

definition set_block ::
  "('b, 'p, 's, 'r) collab \<Rightarrow> 'b \<Rightarrow> int \<Rightarrow> int \<Rightarrow> int \<Rightarrow> ('b, 'p) editor
     \<Rightarrow> (error + unit) \<times> ('b, 'p) editor" where
  "set_block K block x y z ed =
     (case indexer K x y z of
        Inl e \<Rightarrow> (Inl e, ed)
      | Inr (region_coord, chunk_coord, ylevel, block_index) \<Rightarrow>
          (let section_id = (region_coord, chunk_coord, ylevel);
               change = (block, block_index)
           in (Inr (), ed\<lparr>blocks_map := dict_append section_id change (blocks_map ed)\<rparr>)))"

definition get_section ::
  "('b, 'p, 's, 'r) collab \<Rightarrow> section_id \<Rightarrow> ('b, 'p, 's) state
     \<Rightarrow> (error + nat) \<times> ('b, 'p, 's) state" where
  "get_section K section_id st =
     (case (section_id, st) of ((region_coord, chunk_coord, ylevel), (w, ed)) \<Rightarrow>
        (let chunk_id = (region_coord, chunk_coord) in
         case map_of (chunks ed) chunk_id of
           Some chunk \<Rightarrow>
             (case chunk_get_section chunk ylevel w of (r, w') \<Rightarrow> (r, (w', ed)))
         | None \<Rightarrow>
             (let w1 = w\<lparr>calls := calls w @ [OpenRegion (path ed) region_coord]\<rparr> in
              case region_open K (disk w1) (path ed) region_coord of
                Inl e \<Rightarrow> (Inl e, (w1, ed))
              | Inr region \<Rightarrow>
                  (let w2 = w1\<lparr>calls := calls w1 @ [ReadChunk (path ed) region_coord chunk_coord]\<rparr> in
                   case region_read_chunk K region chunk_coord of
                     Inl e \<Rightarrow> (Inl e, (w2, ed))
                   | Inr chunk \<Rightarrow>
                       (let ed' = ed\<lparr>chunks := AList.update chunk_id chunk (chunks ed)\<rparr> in
                        case chunk_get_section chunk ylevel w2 of
                          (r, w') \<Rightarrow> (r, (w', ed')))))))"

definition get_block ::
  "('b, 'p, 's, 'r) collab \<Rightarrow> int \<Rightarrow> int \<Rightarrow> int \<Rightarrow> ('b, 'p, 's) state
     \<Rightarrow> (error + 'b) \<times> ('b, 'p, 's) state" where
  "get_block K x y z st =
     (case indexer K x y z of
        Inl e \<Rightarrow> (Inl e, st)
      | Inr (region_coord, chunk_coord, ylevel, block_index) \<Rightarrow>
          (let section_id = (region_coord, chunk_coord, ylevel) in
           case sections (snd st) section_id of
             Some r \<Rightarrow> (Inr (section_get_block (heap (fst st) r) block_index), st)
           | None \<Rightarrow>
               (case get_section K section_id st of
                  (Inl e, st') \<Rightarrow> (Inl e, st')
                | (Inr r, (w', ed')) \<Rightarrow>
                    (Inr (section_get_block (heap w' r) block_index),
                     (w', ed'\<lparr>sections := (sections ed')(section_id \<mapsto> r)\<rparr>)))))"

subsection \<open>Copying\<close>

text \<open>
  An optional list argument: \<^verbatim>\<open>None\<close> and the empty list (or the empty string) are
  false in a condition.
\<close>

definition truthy :: "'a list option \<Rightarrow> bool" where
  "truthy v = (case v of None \<Rightarrow> False | Some l \<Rightarrow> l \<noteq> [])"

definition items :: "'a list option \<Rightarrow> 'a list" where
  "items v = (case v of None \<Rightarrow> [] | Some l \<Rightarrow> l)"

text \<open>
  During \<^verbatim>\<open>copy_blocks\<close> there are the editor itself and the editor read from:
  \<^verbatim>\<open>source_world\<close> is either \<^verbatim>\<open>self\<close> (\<open>None\<close> below) or an editor of its own, made
  by the call.
\<close>

type_synonym ('b, 'p, 's) copy_state =
  "('b, 's) world \<times> ('b, 'p) editor \<times> ('b, 'p) editor option"

definition source_get_block ::
  "('b, 'p, 's, 'r) collab \<Rightarrow> int \<Rightarrow> int \<Rightarrow> int \<Rightarrow> ('b, 'p, 's) copy_state
     \<Rightarrow> (error + 'b) \<times> ('b, 'p, 's) copy_state" where
  "source_get_block K x y z cs =
     (case cs of (w, self, src) \<Rightarrow>
        (case src of
           None \<Rightarrow>
             (case get_block K x y z (w, self) of (r, (w', self')) \<Rightarrow> (r, (w', self', None)))
         | Some s \<Rightarrow>
             (case get_block K x y z (w, s) of (r, (w', s')) \<Rightarrow> (r, (w', self, Some s')))))"

definition self_set_block ::
  "('b, 'p, 's, 'r) collab \<Rightarrow> 'b \<Rightarrow> int \<Rightarrow> int \<Rightarrow> int \<Rightarrow> ('b, 'p, 's) copy_state
     \<Rightarrow> (error + unit) \<times> ('b, 'p, 's) copy_state" where
  "self_set_block K block x y z cs =
     (case cs of (w, self, src) \<Rightarrow>
        (case set_block K block x y z self of (r, self') \<Rightarrow> (r, (w, self', src))))"

text \<open>The body of the three nested loops over \<open>dx\<close>, \<open>dy\<close>, \<open>dz\<close>.\<close>

definition copy_block ::
  "('b, 'p, 's, 'r) collab \<Rightarrow> int \<times> int \<times> int \<Rightarrow> int \<times> int \<times> int
     \<Rightarrow> (int \<times> int \<times> int) list option \<Rightarrow> int \<Rightarrow> int \<Rightarrow> int
     \<Rightarrow> ('b, 'p, 's) copy_state \<Rightarrow> (error + unit) \<times> ('b, 'p, 's) copy_state" where
  "copy_block K source dest rep dx dy dz cs =
     (case (source, dest) of ((sx, sy, sz), (tx, ty, tz)) \<Rightarrow>
        (case source_get_block K (sx + dx) (sy + dy) (sz + dz) cs of
           (Inl e, cs') \<Rightarrow> (Inl e, cs')
         | (Inr block, cs') \<Rightarrow>
             (if truthy rep
              then forM (\<lambda>(rx, ry, rz).
                     self_set_block K block (tx + dx + rx) (ty + dy + ry) (tz + dz + rz))
                     (items rep) cs'
              else self_set_block K block (tx + dx) (ty + dy) (tz + dz) cs')))"

definition copy_voxels ::
  "('b, 'p, 's, 'r) collab \<Rightarrow> int \<times> int \<times> int \<Rightarrow> int \<times> int \<times> int \<Rightarrow> int \<times> int \<times> int
     \<Rightarrow> (int \<times> int \<times> int) list option
     \<Rightarrow> ('b, 'p, 's) copy_state \<Rightarrow> (error + unit) \<times> ('b, 'p, 's) copy_state" where
  "copy_voxels K source dest size3 rep cs =
     (case size3 of (wx, wy, wz) \<Rightarrow>
        forM (\<lambda>dx. forM (\<lambda>dy. forM (\<lambda>dz. copy_block K source dest rep dx dy dz)
                                 (py_range wz))
                      (py_range wy))
             (py_range wx) cs)"

text \<open>
  The loop over the block entities of one source chunk. An entity inside the source
  cuboid has its position fields overwritten, in the chunk's own list, and is appended to
  the staged entities under the key of its destination chunk. The function returns the
  chunk's list as the loop leaves it, with the staged entities.
\<close>

fun relocate_entities ::
  "('b, 'p, 's, 'r) collab \<Rightarrow> int \<times> int \<times> int \<Rightarrow> int \<times> int \<times> int \<Rightarrow> int \<times> int \<times> int
     \<Rightarrow> 'p entity list \<Rightarrow> (chunk_id \<times> 'p entity list) list
     \<Rightarrow> (error + unit) \<times> 'p entity list \<times> (chunk_id \<times> 'p entity list) list" where
  "relocate_entities K (sx, sy, sz) (tx, ty, tz) (wx, wy, wz) [] staged = (Inr (), [], staged)"
| "relocate_entities K (sx, sy, sz) (tx, ty, tz) (wx, wy, wz) (entity # rest) staged =
     (let x = pos_x entity; y = pos_y entity; z = pos_z entity in
      if x \<ge> sx \<and> x < sx + wx \<and> y \<ge> sy \<and> y < sy + wy \<and> z \<ge> sz \<and> z < sz + wz
      then
        (let x' = x + (tx - sx); y' = y + (ty - sy); z' = z + (tz - sz) in
         case indexer K x' y' z' of
           Inl e \<Rightarrow> (Inl e, entity # rest, staged)
         | Inr (region_coord, chunk_coord, ylevel, block_index) \<Rightarrow>
             (let key = (region_coord, chunk_coord);
                  moved = entity\<lparr>pos_x := x', pos_y := y', pos_z := z'\<rparr>
              in case relocate_entities K (sx, sy, sz) (tx, ty, tz) (wx, wy, wz) rest
                        (dict_append key moved staged) of
                   (r, rest', staged') \<Rightarrow> (r, moved # rest', staged')))
      else
        (case relocate_entities K (sx, sy, sz) (tx, ty, tz) (wx, wy, wz) rest staged of
           (r, rest', staged') \<Rightarrow> (r, entity # rest', staged')))"

text \<open>The loop over \<^verbatim>\<open>source_world.chunks.items()\<close>.\<close>

fun relocate_chunks ::
  "('b, 'p, 's, 'r) collab \<Rightarrow> int \<times> int \<times> int \<Rightarrow> int \<times> int \<times> int \<Rightarrow> int \<times> int \<times> int
     \<Rightarrow> (chunk_id \<times> ('b, 'p) chunk) list \<Rightarrow> (chunk_id \<times> 'p entity list) list
     \<Rightarrow> (error + unit) \<times> (chunk_id \<times> ('b, 'p) chunk) list \<times> (chunk_id \<times> 'p entity list) list" where
  "relocate_chunks K source dest size3 [] staged = (Inr (), [], staged)"
| "relocate_chunks K source dest size3 ((chunk_coord, chunk) # rest) staged =
     (case relocate_entities K source dest size3 (block_entities chunk) staged of
        (Inl e, es, staged') \<Rightarrow>
          (Inl e, (chunk_coord, chunk\<lparr>block_entities := es\<rparr>) # rest, staged')
      | (Inr u, es, staged') \<Rightarrow>
          (case relocate_chunks K source dest size3 rest staged' of
             (r, rest', staged'') \<Rightarrow>
               (r, (chunk_coord, chunk\<lparr>block_entities := es\<rparr>) # rest', staged'')))"

definition relocate ::
  "('b, 'p, 's, 'r) collab \<Rightarrow> int \<times> int \<times> int \<Rightarrow> int \<times> int \<times> int \<Rightarrow> int \<times> int \<times> int
     \<Rightarrow> ('b, 'p, 's) copy_state \<Rightarrow> (error + unit) \<times> ('b, 'p, 's) copy_state" where
  "relocate K source dest size3 cs =
     (case cs of (w, self, src) \<Rightarrow>
        (let self0 = self\<lparr>entities := []\<rparr> in
         case src of
           None \<Rightarrow>
             (case relocate_chunks K source dest size3 (chunks self0) [] of
                (r, chunks', staged) \<Rightarrow>
                  (r, (w, self0\<lparr>chunks := chunks', entities := staged\<rparr>, None)))
         | Some s \<Rightarrow>
             (case relocate_chunks K source dest size3 (chunks s) [] of
                (r, chunks', staged) \<Rightarrow>
                  (r, (w, self0\<lparr>entities := staged\<rparr>, Some (s\<lparr>chunks := chunks'\<rparr>))))))"

text \<open>
  The repetitions of the staged entities. The loops share the variable \<^verbatim>\<open>key\<close>: the
  outer loop binds it to the key of each staged list, the innermost loop rebinds it to the
  key of each repeated entity, and the middle loop reads it when it saves the original
  entity. It is part of the state of the loops.
\<close>

definition repeat_entity ::
  "('b, 'p, 's, 'r) collab \<Rightarrow> 'p entity \<Rightarrow> int \<times> int \<times> int
     \<Rightarrow> chunk_id \<times> (chunk_id \<times> 'p entity list) list
     \<Rightarrow> (error + unit) \<times> chunk_id \<times> (chunk_id \<times> 'p entity list) list" where
  "repeat_entity K orig_entity repetition ks =
     (case (repetition, ks) of ((rx, ry, rz), (key, staged)) \<Rightarrow>
        (let x = pos_x orig_entity + rx; y = pos_y orig_entity + ry; z = pos_z orig_entity + rz in
         case indexer K x y z of
           Inl e \<Rightarrow> (Inl e, (key, staged))
         | Inr (region_coord, chunk_coord, ylevel, block_index) \<Rightarrow>
             (let key' = (region_coord, chunk_coord);
                  entity = orig_entity\<lparr>pos_x := x, pos_y := y, pos_z := z\<rparr>
              in (Inr (), (key', dict_append key' entity staged)))))"

definition repeat_entities ::
  "('b, 'p, 's, 'r) collab \<Rightarrow> (int \<times> int \<times> int) list \<Rightarrow> 'p entity
     \<Rightarrow> chunk_id \<times> (chunk_id \<times> 'p entity list) list
     \<Rightarrow> (error + unit) \<times> chunk_id \<times> (chunk_id \<times> 'p entity list) list" where
  "repeat_entities K rep orig_entity ks =
     (case ks of (key, staged) \<Rightarrow>
        forM (repeat_entity K orig_entity) rep (key, dict_append key orig_entity staged))"

definition repeat_staged ::
  "('b, 'p, 's, 'r) collab \<Rightarrow> (int \<times> int \<times> int) list \<Rightarrow> chunk_id \<times> 'p entity list
     \<Rightarrow> (chunk_id \<times> 'p entity list) list
     \<Rightarrow> (error + unit) \<times> (chunk_id \<times> 'p entity list) list" where
  "repeat_staged K rep item staged =
     (case item of (key, es) \<Rightarrow>
        (case forM (repeat_entities K rep) es (key, staged) of
           (r, (key', staged')) \<Rightarrow> (r, staged')))"

definition repeat_all ::
  "('b, 'p, 's, 'r) collab \<Rightarrow> (int \<times> int \<times> int) list \<Rightarrow> ('b, 'p) editor
     \<Rightarrow> (error + unit) \<times> ('b, 'p) editor" where
  "repeat_all K rep self =
     (let copy_entities = entities self in
      case forM (repeat_staged K rep) copy_entities [] of
        (r, staged) \<Rightarrow> (r, self\<lparr>entities := staged\<rparr>))"

text \<open>\<^verbatim>\<open>copy_blocks\<close>, with the editor read from still in the state it returns.\<close>

definition copy_blocks_run ::
  "('b, 'p, 's, 'r) collab \<Rightarrow> int \<times> int \<times> int \<Rightarrow> int \<times> int \<times> int \<Rightarrow> int \<times> int \<times> int
     \<Rightarrow> (int \<times> int \<times> int) list option \<Rightarrow> string option
     \<Rightarrow> ('b, 'p, 's) state \<Rightarrow> (error + unit) \<times> ('b, 'p, 's) copy_state" where
  "copy_blocks_run K source dest size3 rep world_source st =
     (case st of (w, self) \<Rightarrow>
        (let source_world = (if truthy world_source then Some (Editor (items world_source))
                             else None) in
         case copy_voxels K source dest size3 rep (w, self, source_world) of
           (Inl e, cs) \<Rightarrow> (Inl e, cs)
         | (Inr u, cs1) \<Rightarrow>
             (case relocate K source dest size3 cs1 of
                (Inl e, cs) \<Rightarrow> (Inl e, cs)
              | (Inr u, (w2, self2, src2)) \<Rightarrow>
                  (if truthy rep
                   then (case repeat_all K (items rep) self2 of
                           (r, self3) \<Rightarrow> (r, (w2, self3, src2)))
                   else (Inr (), (w2, self2, src2))))))"

definition copy_blocks ::
  "('b, 'p, 's, 'r) collab \<Rightarrow> int \<times> int \<times> int \<Rightarrow> int \<times> int \<times> int \<Rightarrow> int \<times> int \<times> int
     \<Rightarrow> (int \<times> int \<times> int) list option \<Rightarrow> string option
     \<Rightarrow> ('b, 'p, 's) state \<Rightarrow> (error + unit) \<times> ('b, 'p, 's) state" where
  "copy_blocks K source dest size3 rep world_source st =
     (case copy_blocks_run K source dest size3 rep world_source st of
        (r, (w, self, src)) \<Rightarrow> (r, (w, self)))"

subsection \<open>Committing\<close>

text \<open>The first loop of \<^verbatim>\<open>done\<close>: the write-side section of an address, read on first use.\<close>

definition ensure_write_section ::
  "('b, 'p, 's, 'r) collab \<Rightarrow> section_id \<Rightarrow> ('b, 'p, 's) state
     \<Rightarrow> (error + nat) \<times> ('b, 'p, 's) state" where
  "ensure_write_section K section_id st =
     (case write_sections (snd st) section_id of
        Some r \<Rightarrow> (Inr r, st)
      | None \<Rightarrow>
          (case get_section K section_id st of
             (Inl e, st') \<Rightarrow> (Inl e, st')
           | (Inr r, (w', ed')) \<Rightarrow>
               (Inr r, (w', ed'\<lparr>write_sections := (write_sections ed')(section_id \<mapsto> r)\<rparr>))))"

definition apply_updates :: "'b section_data \<Rightarrow> ('b \<times> int) list \<Rightarrow> 'b section_data" where
  "apply_updates s updates = foldl (\<lambda>s (block, block_index). section_set_block s block block_index) s updates"

definition update_section ::
  "('b, 'p, 's, 'r) collab \<Rightarrow> section_id \<times> ('b \<times> int) list
     \<Rightarrow> ('b, 'p, 's) state \<times> (coord \<times> (coord \<times> int) list) list
     \<Rightarrow> (error + unit) \<times> ('b, 'p, 's) state \<times> (coord \<times> (coord \<times> int) list) list" where
  "update_section K item sr =
     (case (item, sr) of (((region_coord, chunk_coord, ylevel), updates), (st, regions)) \<Rightarrow>
        (case ensure_write_section K (region_coord, chunk_coord, ylevel) st of
           (Inl e, st') \<Rightarrow> (Inl e, (st', regions))
         | (Inr r, (w1, ed1)) \<Rightarrow>
             (Inr (),
              ((w1\<lparr>heap := (heap w1)(r := apply_updates (heap w1 r) updates)\<rparr>, ed1),
               dict_append region_coord (chunk_coord, ylevel) regions))))"

definition update_sections ::
  "('b, 'p, 's, 'r) collab \<Rightarrow> ('b, 'p, 's) state
     \<Rightarrow> (error + unit) \<times> ('b, 'p, 's) state \<times> (coord \<times> (coord \<times> int) list) list" where
  "update_sections K st = forM (update_section K) (blocks_map (snd st)) (st, [])"

text \<open>The second loop of \<^verbatim>\<open>done\<close>, from the innermost loop outwards.\<close>

fun set_sections ::
  "('b, 'p, 's) state \<Rightarrow> coord \<Rightarrow> coord \<Rightarrow> int list \<Rightarrow> ('b, 'p) chunk
     \<Rightarrow> error + ('b, 'p) chunk" where
  "set_sections st region_coord chunk_coord [] chunk = Inr chunk"
| "set_sections st region_coord chunk_coord (ylevel # ylevels) chunk =
     (case write_sections (snd st) (region_coord, chunk_coord, ylevel) of
        None \<Rightarrow> Inl KeyError
      | Some r \<Rightarrow>
          set_sections st region_coord chunk_coord ylevels
            (chunk_set_section chunk ylevel (section_get_nbt (heap (fst st) r))))"

definition update_chunk ::
  "('b, 'p, 's, 'r) collab \<Rightarrow> ('b, 'p) editor \<Rightarrow> coord \<Rightarrow> 'r \<Rightarrow> coord \<times> int list
     \<Rightarrow> ('b, 's) world \<times> (coord \<times> bytes) list
     \<Rightarrow> (error + unit) \<times> ('b, 's) world \<times> (coord \<times> bytes) list" where
  "update_chunk K self region_coord region item wu =
     (case (item, wu) of ((chunk_coord, ylevels), (w, updated_chunks)) \<Rightarrow>
        (let key = (region_coord, chunk_coord);
             entities_to_update = (case map_of (entities self) key of Some es \<Rightarrow> es | None \<Rightarrow> []);
             w1 = w\<lparr>calls := calls w @ [GetChunk (path self) region_coord chunk_coord]\<rparr>
         in case region_get_chunk K region chunk_coord of
              Inl e \<Rightarrow> (Inl e, (w1, updated_chunks))
            | Inr chunk \<Rightarrow>
                (case set_sections (w1, self) region_coord chunk_coord ylevels chunk of
                   Inl e \<Rightarrow> (Inl e, (w1, updated_chunks))
                 | Inr chunk' \<Rightarrow>
                     (case chunk_get_bytes K chunk' entities_to_update of
                        Inl e \<Rightarrow> (Inl e, (w1, updated_chunks))
                      | Inr bs \<Rightarrow>
                          (Inr (), (w1, AList.update chunk_coord bs updated_chunks))))))"

definition chunk_indices :: "(coord \<times> int) list \<Rightarrow> (coord \<times> int list) list" where
  "chunk_indices chunk_id = foldl (\<lambda>chunks (chunk_coord, ylevel). dict_append chunk_coord ylevel chunks) [] chunk_id"

definition write_region ::
  "('b, 'p, 's, 'r) collab \<Rightarrow> ('b, 'p) editor \<Rightarrow> coord \<times> (coord \<times> int) list
     \<Rightarrow> ('b, 's) world \<Rightarrow> (error + unit) \<times> ('b, 's) world" where
  "write_region K self item w =
     (case item of (region_coord, chunk_id) \<Rightarrow>
        (let w1 = w\<lparr>calls := calls w @ [OpenRegion (path self) region_coord]\<rparr> in
         case region_open K (disk w1) (path self) region_coord of
           Inl e \<Rightarrow> (Inl e, w1)
         | Inr region \<Rightarrow>
             (case forM (update_chunk K self region_coord region) (chunk_indices chunk_id) (w1, []) of
                (Inl e, (w2, updated_chunks)) \<Rightarrow> (Inl e, w2)
              | (Inr u, (w2, updated_chunks)) \<Rightarrow>
                  (let w3 = w2\<lparr>calls := calls w2 @ [WriteRegion (path self) region_coord updated_chunks]\<rparr> in
                   case region_write K (disk w3) region updated_chunks of
                     (r, d) \<Rightarrow> (r, w3\<lparr>disk := d\<rparr>)))))"

text \<open>\<^verbatim>\<open>Editor.done\<close>.\<close>

definition done_editor ::
  "('b, 'p, 's, 'r) collab \<Rightarrow> ('b, 'p, 's) state \<Rightarrow> (error + unit) \<times> ('b, 'p, 's) state" where
  "done_editor K st =
     (case update_sections K st of
        (Inl e, (st', regions)) \<Rightarrow> (Inl e, st')
      | (Inr u, ((w1, ed1), regions)) \<Rightarrow>
          (case forM (write_region K ed1) regions w1 of
             (r, w2) \<Rightarrow> (r, (w2, ed1))))"

section \<open>Observations\<close>

text \<open>What a write can change: the storage, and the write calls made so far.\<close>

definition persisted :: "('b, 's) world \<Rightarrow> 's \<times> call list" where
  "persisted w = (disk w, filter is_write (calls w))"


fun call_region :: "call \<Rightarrow> coord" where
  "call_region (OpenRegion p rc) = rc"
| "call_region (ReadChunk p rc cc) = rc"
| "call_region (GetChunk p rc cc) = rc"
| "call_region (WriteRegion p rc m) = rc"

text \<open>The world \<open>w'\<close> comes from \<open>w\<close> by calls on regions of \<open>R\<close> only.\<close>

definition calls_within :: "coord set \<Rightarrow> ('b, 's) world \<Rightarrow> ('b, 's) world \<Rightarrow> bool" where
  "calls_within R w w' \<longleftrightarrow> (\<exists>new. calls w' = calls w @ new \<and> call_region ` set new \<subseteq> R)"

text \<open>
  The dictionary \<^verbatim>\<open>regions\<close> that the first loop of \<^verbatim>\<open>done\<close> builds from the keys of the
  pending buffer, and the regions and chunks the buffer touches.
\<close>

definition touched_regions :: "(section_id \<times> 'u) list \<Rightarrow> (coord \<times> (coord \<times> int) list) list" where
  "touched_regions bm =
     foldl (\<lambda>regions item. dict_append (fst (fst item)) (fst (snd (fst item)), snd (snd (fst item))) regions)
       [] bm"

definition region_of :: "section_id \<times> 'u \<Rightarrow> coord" where
  "region_of item = fst (fst item)"

definition chunk_of :: "section_id \<times> 'u \<Rightarrow> chunk_id" where
  "chunk_of item = (fst (fst item), fst (snd (fst item)))"

text \<open>
  The chunk a read of a chunk id works on: the cached chunk, or else the one the storage
  gives; and the section payload a read of a section id starts from.
\<close>

definition lookup_chunk ::
  "('b, 'p, 's, 'r) collab \<Rightarrow> ('b, 'p, 's) state \<Rightarrow> chunk_id \<Rightarrow> error + ('b, 'p) chunk" where
  "lookup_chunk K st chunk_id =
     (case map_of (chunks (snd st)) chunk_id of
        Some c \<Rightarrow> Inr c
      | None \<Rightarrow>
          (case region_open K (disk (fst st)) (path (snd st)) (fst chunk_id) of
             Inl e \<Rightarrow> Inl e
           | Inr region \<Rightarrow> region_read_chunk K region (snd chunk_id)))"

definition stored_section ::
  "('b, 'p, 's, 'r) collab \<Rightarrow> ('b, 'p, 's) state \<Rightarrow> section_id \<Rightarrow> error + 'b section_data" where
  "stored_section K st section_id =
     (case lookup_chunk K st (fst section_id, fst (snd section_id)) of
        Inl e \<Rightarrow> Inl e
      | Inr c \<Rightarrow>
          (case nbt_sections c (snd (snd section_id)) of
             None \<Rightarrow> Inl StorageReadError
           | Some s \<Rightarrow> Inr s))"

text \<open>What a \<open>get_block\<close> returns, read off the state.\<close>

definition read_value ::
  "('b, 'p, 's, 'r) collab \<Rightarrow> ('b, 'p, 's) state \<Rightarrow> int \<Rightarrow> int \<Rightarrow> int \<Rightarrow> error + 'b" where
  "read_value K st x y z =
     (case indexer K x y z of
        Inl e \<Rightarrow> Inl e
      | Inr (region_coord, chunk_coord, ylevel, block_index) \<Rightarrow>
          (case sections (snd st) (region_coord, chunk_coord, ylevel) of
             Some r \<Rightarrow> Inr (section_get_block (heap (fst st) r) block_index)
           | None \<Rightarrow>
               (case stored_section K st (region_coord, chunk_coord, ylevel) of
                  Inl e \<Rightarrow> Inl e
                | Inr s \<Rightarrow> Inr (section_get_block s block_index))))"

text \<open>The contents the commit applies the buffered writes of a section id to: those of
  the write-side section if there is one, or else the stored payload.\<close>

definition write_base ::
  "('b, 'p, 's, 'r) collab \<Rightarrow> ('b, 'p, 's) state \<Rightarrow> section_id \<Rightarrow> error + 'b section_data" where
  "write_base K st section_id =
     (case write_sections (snd st) section_id of
        Some r \<Rightarrow> Inr (heap (fst st) r)
      | None \<Rightarrow> stored_section K st section_id)"

text \<open>The last value written to an index by a list of updates, if any.\<close>

definition last_write :: "('b \<times> int) list \<Rightarrow> int \<Rightarrow> 'b option" where
  "last_write updates i = map_of (map (\<lambda>(block, block_index). (block_index, block)) (rev updates)) i"

text \<open>
  The states of a running program: the section objects of both caches exist, every
  section object is held by one entry of one cache, and the pending buffer, a dictionary,
  has every key once.
\<close>

definition cache_ok :: "('b, 'p, 's) state \<Rightarrow> bool" where
  "cache_ok st \<longleftrightarrow>
     (\<forall>sid r. sections (snd st) sid = Some r \<longrightarrow> r < next_ref (fst st)) \<and>
     (\<forall>sid r. write_sections (snd st) sid = Some r \<longrightarrow> r < next_ref (fst st)) \<and>
     (\<forall>sid sid' r. write_sections (snd st) sid = Some r \<longrightarrow> write_sections (snd st) sid' = Some r
        \<longrightarrow> sid = sid') \<and>
     (\<forall>sid sid' r. sections (snd st) sid = Some r \<longrightarrow> write_sections (snd st) sid' \<noteq> Some r) \<and>
     distinct (map fst (blocks_map (snd st)))"

text \<open>
  From \<open>st0\<close> to \<open>st\<close> nothing a read depends on has changed: the section cache, the
  chunks reads work on, and the contents of every section object of \<open>st0\<close> that is not
  one of its write-side sections; the write-side sections of \<open>st\<close> are those of \<open>st0\<close> or
  objects made since.
\<close>

definition reads_kept ::
  "('b, 'p, 's, 'r) collab \<Rightarrow> ('b, 'p, 's) state \<Rightarrow> ('b, 'p, 's) state \<Rightarrow> bool" where
  "reads_kept K st0 st \<longleftrightarrow>
     sections (snd st) = sections (snd st0) \<and>
     lookup_chunk K st = lookup_chunk K st0 \<and>
     next_ref (fst st0) \<le> next_ref (fst st) \<and>
     (\<forall>r. r < next_ref (fst st0) \<longrightarrow> (\<forall>sid. write_sections (snd st0) sid \<noteq> Some r)
        \<longrightarrow> heap (fst st) r = heap (fst st0) r) \<and>
     (\<forall>sid r. write_sections (snd st) sid = Some r
        \<longrightarrow> write_sections (snd st0) sid = Some r \<or> next_ref (fst st0) \<le> r)"

section \<open>A small world\<close>

text \<open>
  A storage for examples: every chunk of every region exists and is filled with block 7 at
  all levels; the chunk \<open>(0, 0)\<close> of the region \<open>(0, 0)\<close> holds one block entity, a chest at
  \<open>(5, 10, 5)\<close>. The byte stream of a chunk lists the \<open>x\<close> positions of the entities merged
  into it. Writing succeeds.
\<close>

definition demo_chunk :: "string \<times> coord \<Rightarrow> coord \<Rightarrow> (nat, unit) chunk" where
  "demo_chunk region chunk_coord =
     \<lparr>nbt_sections = (\<lambda>ylevel. Some (\<lambda>i. 7)),
      block_entities =
        (if snd region = (0, 0) \<and> chunk_coord = (0, 0)
         then [\<lparr>pos_x = 5, pos_y = 10, pos_z = 5, entity_id = ''chest'', payload = ()\<rparr>]
         else [])\<rparr>"

definition demo :: "(nat, unit, unit, string \<times> coord) collab" where
  "demo =
     \<lparr>indexer = block_to_id_index anvil,
      region_open = (\<lambda>d p region_coord. Inr (p, region_coord)),
      region_read_chunk = (\<lambda>region chunk_coord. Inr (demo_chunk region chunk_coord)),
      region_get_chunk = (\<lambda>region chunk_coord. Inr (demo_chunk region chunk_coord)),
      chunk_get_bytes = (\<lambda>c es. Inr (map (\<lambda>e. word_of_int (pos_x e)) es)),
      region_write = (\<lambda>d region m. (Inr (), d))\<rparr>"

definition world0 :: "(nat, unit) world" where
  "world0 = \<lparr>disk = (), calls = [], heap = (\<lambda>r i. 0), next_ref = 0\<rparr>"

text \<open>The small world after the copy of the block at \<open>(5, 10, 5)\<close> to \<open>(105, 10, 5)\<close>.\<close>

definition demo_pending :: "(nat, unit, unit) state" where
  "demo_pending =
     snd (copy_blocks demo (5, 10, 5) (105, 10, 5) (1, 1, 1) None None (world0, Editor ''w''))"

text \<open>Staged entities for the chunk \<open>(9, 9)\<close>, where the examples write no block.\<close>

definition demo_staged :: "(chunk_id \<times> unit entity list) list" where
  "demo_staged =
     [(((0, 0), (9, 9)),
       [\<lparr>pos_x = 150, pos_y = 10, pos_z = 150, entity_id = ''chest'', payload = ()\<rparr>])]"

text \<open>The small world after a read of the block at \<open>(1, 2, 3)\<close> and two buffered writes
  there, of block 8 and then of block 9.\<close>

definition demo_buffered :: "(nat, unit, unit) state" where
  "demo_buffered =
     (case get_block demo 1 2 3 (world0, Editor ''w'') of
        (r, (w, ed)) \<Rightarrow> (w, snd (set_block demo 9 1 2 3 (snd (set_block demo 8 1 2 3 ed)))))"

section \<open>Address round trip\<close>

lemma split_coordinate:
  fixes x c r :: int
  assumes "0 < c" "0 < r"
  shows "(x div (c * r) * r + (x div c) mod r) * c + x mod c = x"
proof -
  have "x div (c * r) = (x div c) div r"
    using assms by (simp add: zdiv_zmult2_eq)
  then have "x div (c * r) * r + (x div c) mod r = x div c"
    by simp
  then show ?thesis
    by simp
qed

lemma index_parts:
  fixes a b d c h :: int
  assumes c: "0 < c" and a: "0 \<le> a" "a < c" and b: "0 \<le> b" "b < c"
  shows "(d * (c * c) + b * c + a) mod c = a"
    and "((d * (c * c) + b * c + a) div c) mod c = b"
    and "(d * (c * c) + b * c + a) div (c * c) = d"
proof -
  have e: "d * (c * c) + b * c + a = a + (d * c + b) * c"
    by (simp add: algebra_simps)
  show "(d * (c * c) + b * c + a) mod c = a"
    using a by (simp add: e)
  have q: "(d * (c * c) + b * c + a) div c = d * c + b"
    using a c by (simp add: e)
  have m: "(d * c + b) mod c = b"
    using b by simp
  show "((d * (c * c) + b * c + a) div c) mod c = b"
    unfolding q by (rule m)
  have "(d * (c * c) + b * c + a) div (c * c) = (d * c + b) div c"
    using c q by (metis less_imp_le zdiv_zmult2_eq)
  also have "\<dots> = d"
    using b c by simp
  finally show "(d * (c * c) + b * c + a) div (c * c) = d" .
qed

lemma index_bounds:
  fixes a b d c h :: int
  assumes "0 < c" "0 \<le> a" "a < c" "0 \<le> b" "b < c" "0 \<le> d" "d < h"
  shows "0 \<le> d * (c * c) + b * c + a" and "d * (c * c) + b * c + a < h * (c * c)"
proof -
  show "0 \<le> d * (c * c) + b * c + a"
    using assms by simp
  have "b * c + a < c * c"
  proof -
    have "b * c + a < (b + 1) * c" using assms by (simp add: algebra_simps)
    also have "\<dots> \<le> c * c" using assms by (simp add: mult_right_mono)
    finally show ?thesis .
  qed
  moreover have "(d + 1) * (c * c) \<le> h * (c * c)"
    using assms by (intro mult_right_mono) simp_all
  ultimately show "d * (c * c) + b * c + a < h * (c * c)"
    by (simp add: algebra_simps)
qed

text \<open>
  C9. For every coordinate whose vertical level is valid, negative \<open>x\<close> and \<open>z\<close> included,
  the indexer returns an address of its range, and recomposing that address gives the
  coordinate back; so the indexer is injective on valid coordinates.
\<close>

theorem address_round_trip:
  assumes "valid_extents E"
    and "min_level E \<le> y div section_height E" and "y div section_height E \<le> max_level E"
  shows "\<exists>a. block_to_id_index E x y z = Inr a \<and> address_in_range E a \<and>
             recompose E a = (x, y, z)"
proof -
  let ?c = "chunk_extent E" and ?r = "region_chunks E" and ?h = "section_height E"
  let ?i = "(y mod ?h) * (?c * ?c) + (z mod ?c) * ?c + x mod ?c"
  let ?a = "((x div (?c * ?r), z div (?c * ?r)), ((x div ?c) mod ?r, (z div ?c) mod ?r),
             y div ?h, ?i)"
  have c: "0 < ?c" and r: "0 < ?r" and h: "0 < ?h"
    using assms(1) by (simp_all add: valid_extents_def)
  have xm: "0 \<le> x mod ?c" "x mod ?c < ?c" and zm: "0 \<le> z mod ?c" "z mod ?c < ?c"
    and ym: "0 \<le> y mod ?h" "y mod ?h < ?h"
    using c h by simp_all
  have ix: "?i mod ?c = x mod ?c" and iz: "(?i div ?c) mod ?c = z mod ?c"
    and iy: "?i div (?c * ?c) = y mod ?h"
    using index_parts [OF c xm zm] by blast+
  have ib: "0 \<le> ?i" "?i < ?h * (?c * ?c)"
    using index_bounds [OF c xm zm ym] by blast+
  have "block_to_id_index E x y z = Inr ?a"
    using assms(2,3) by (simp add: block_to_id_index_def Let_def)
  moreover have "address_in_range E ?a"
    using ib r assms(2,3) by (simp add: address_in_range_def)
  moreover have "recompose E ?a = (x, y, z)"
    using split_coordinate [OF c r] by (simp add: recompose_def Let_def ix iz iy)
  ultimately show ?thesis
    by blast
qed

theorem address_round_trip_witness:
  "valid_extents anvil \<and> min_level anvil \<le> (-7) div section_height anvil \<and>
   (-7) div section_height anvil \<le> max_level anvil \<and>
   (\<exists>a. block_to_id_index anvil (-1) (-7) (-513) = Inr a \<and> address_in_range anvil a \<and>
        recompose anvil a = (-1, -7, -513))"
proof -
  have v: "valid_extents anvil"
    by (simp add: valid_extents_def anvil_def)
  have lo: "min_level anvil \<le> (-7) div section_height anvil"
    by (simp add: anvil_def)
  have hi: "(-7) div section_height anvil \<le> max_level anvil"
    by (simp add: anvil_def)
  show ?thesis
    using v lo hi address_round_trip [OF v lo hi, of "-1" "-513"] by blast
qed

section \<open>Loops\<close>

lemma forM_preserves:
  assumes "\<And>x s. x \<in> set xs \<Longrightarrow> P s \<Longrightarrow> P (snd (f x s))" and "P s"
  shows "P (snd (forM f xs s))"
  using assms
proof (induction xs arbitrary: s)
  case Nil
  then show ?case by simp
next
  case (Cons x xs)
  have step: "P (snd (f x s))"
    using Cons.prems by simp
  show ?case
  proof (cases "f x s")
    case (Pair r s')
    with step have "P s'" by simp
    show ?thesis
    proof (cases r)
      case (Inl e)
      with Pair \<open>P s'\<close> show ?thesis by simp
    next
      case (Inr u)
      have "P (snd (forM f xs s'))"
        using Cons.IH [of s'] Cons.prems(1) \<open>P s'\<close> by simp
      with Pair Inr show ?thesis by simp
    qed
  qed
qed

text \<open>A loop commutes with a change of the state that its body commutes with.\<close>

lemma forM_commute:
  assumes "\<And>x s. x \<in> set xs \<Longrightarrow> f x (g s) = (case f' x s of (r, s') \<Rightarrow> (r, g s'))"
  shows "forM f xs (g s) = (case forM f' xs s of (r, s') \<Rightarrow> (r, g s'))"
  using assms
proof (induction xs arbitrary: s)
  case Nil
  then show ?case by simp
next
  case (Cons x xs)
  show ?case
  proof (cases "f' x s")
    case (Pair r s')
    then have fx: "f x (g s) = (r, g s')"
      using Cons.prems [of x s] by simp
    show ?thesis
    proof (cases r)
      case (Inl e)
      with Pair fx show ?thesis by simp
    next
      case (Inr u)
      have "forM f xs (g s') = (case forM f' xs s' of (r, s'') \<Rightarrow> (r, g s''))"
        using Cons.IH [of s'] Cons.prems by simp
      with Pair fx Inr show ?thesis by simp
    qed
  qed
qed

lemma forM_invariant:
  assumes "\<And>x s. x \<in> set xs \<Longrightarrow> g (snd (f x s)) = g s"
  shows "g (snd (forM f xs s)) = g s"
proof -
  have "(\<lambda>s'. g s' = g s) (snd (forM f xs s))"
    by (rule forM_preserves) (simp_all add: assms)
  then show ?thesis .
qed

section \<open>Reads do not see buffered writes\<close>

lemma chunk_get_section_world:
  "chunk_get_section c ylevel w = (r, w') \<Longrightarrow> disk w' = disk w \<and> calls w' = calls w"
  by (auto simp: chunk_get_section_def split: option.splits)

lemma get_section_blocks_map:
  "get_section K sid (w, ed\<lparr>blocks_map := bm\<rparr>) =
     (case get_section K sid (w, ed) of (r, (w', ed')) \<Rightarrow> (r, (w', ed'\<lparr>blocks_map := bm\<rparr>)))"
  by (cases sid) (auto simp: get_section_def Let_def split: option.splits sum.splits prod.splits)

lemma get_block_blocks_map:
  "get_block K x y z (w, ed\<lparr>blocks_map := bm\<rparr>) =
     (case get_block K x y z (w, ed) of (r, (w', ed')) \<Rightarrow> (r, (w', ed'\<lparr>blocks_map := bm\<rparr>)))"
  by (auto simp: get_block_def get_section_blocks_map Let_def split: option.splits sum.splits prod.splits)

lemma set_block_frame:
  "snd (set_block K v x y z ed) = ed\<lparr>blocks_map := blocks_map (snd (set_block K v x y z ed))\<rparr>"
  by (auto simp: set_block_def Let_def split: sum.splits prod.splits)

text \<open>
  C5. After \<open>set_block v x y z\<close> and before \<open>done\<close>, a \<open>get_block\<close> at any coordinate, the
  same one included, returns what it returned without the \<open>set_block\<close>: the call only
  appends to the pending buffer and leaves the section and chunk caches as they were.
\<close>

theorem set_block_invisible:
  "fst (get_block K x' y' z' (w, snd (set_block K v x y z ed))) = fst (get_block K x' y' z' (w, ed))
   \<and> sections (snd (set_block K v x y z ed)) = sections ed
   \<and> chunks (snd (set_block K v x y z ed)) = chunks ed"
proof -
  let ?ed' = "snd (set_block K v x y z ed)"
  have e: "?ed' = ed\<lparr>blocks_map := blocks_map ?ed'\<rparr>"
    by (rule set_block_frame)
  have "fst (get_block K x' y' z' (w, ed\<lparr>blocks_map := blocks_map ?ed'\<rparr>)) = fst (get_block K x' y' z' (w, ed))"
    by (simp add: get_block_blocks_map split: prod.splits)
  moreover have "sections ?ed' = sections ed" "chunks ?ed' = chunks ed"
    by (subst e, simp)+
  ultimately show ?thesis
    using e by simp
qed

section \<open>Empty repetitions\<close>

lemma truthy_simps: "truthy None = False" "truthy (Some []) = False" "truthy (Some (x # xs)) = True"
  by (simp_all add: truthy_def)

lemma copy_block_empty_rep: "copy_block K source dest (Some []) = copy_block K source dest None"
  unfolding copy_block_def truthy_simps if_False ..

text \<open>
  C8. A copy with the empty list of repetitions returns the same result and the same state
  (pending buffer, staged entities, caches) as the same copy with no repetitions argument.
\<close>

theorem copy_blocks_empty_rep:
  "copy_blocks K source dest size3 (Some []) world_source st = copy_blocks K source dest size3 None world_source st"
  unfolding copy_blocks_def copy_blocks_run_def copy_voxels_def copy_block_empty_rep truthy_simps if_False ..

section \<open>What a copy leaves alone\<close>

lemma get_section_frame:
  assumes "get_section K sid (w, ed) = (r, (w', ed'))"
  shows "path ed' = path ed" "blocks_map ed' = blocks_map ed" "sections ed' = sections ed"
    "write_sections ed' = write_sections ed" "entities ed' = entities ed"
    "persisted w' = persisted w"
  using assms
  by (cases sid; auto simp: get_section_def chunk_get_section_def persisted_def Let_def
        split: option.splits sum.splits prod.splits)+


section \<open>Copies on the small world\<close>

text \<open>
  C3. The entity found in a source chunk is not copied before it is moved: the copy of
  the cuboid at \<open>(5, 10, 5)\<close> to \<open>(105, 10, 5)\<close> overwrites the position of the chest held
  by the cached source chunk \<open>(0, 0)\<close>, which then stands at \<open>(105, 10, 5)\<close> while the
  storage holds it at \<open>(5, 10, 5)\<close>. This is so for a copy within the editor's own world,
  where the chunk is in the editor's chunk cache, and for a copy from the world \<open>src\<close>,
  where it is in the chunk cache of the editor read from. After the copy within the own
  world, a second copy of the same cuboid no longer finds the chest and stages nothing.
\<close>

theorem copy_moves_source_entity:
  "(case copy_blocks demo (5, 10, 5) (105, 10, 5) (1, 1, 1) None None (world0, Editor ''w'') of
      (r, st1) \<Rightarrow>
        r = Inr () \<and>
        map (\<lambda>(k, c). (k, map (\<lambda>e. (pos_x e, pos_y e, pos_z e)) (block_entities c))) (chunks (snd st1))
          = [(((0, 0), (0, 0)), [(105, 10, 5)])] \<and>
        map (\<lambda>(k, es). (k, map pos_x es)) (entities (snd st1)) = [(((0, 0), (6, 0)), [105])] \<and>
        (case copy_blocks demo (5, 10, 5) (205, 10, 5) (1, 1, 1) None None st1 of
           (r2, st2) \<Rightarrow> r2 = Inr () \<and> entities (snd st2) = []))
   \<and> (case copy_blocks_run demo (5, 10, 5) (105, 10, 5) (1, 1, 1) None (Some ''src'')
              (world0, Editor ''w'') of
         (r, w, self, src) \<Rightarrow>
           r = Inr () \<and>
           map_option (\<lambda>s. map (\<lambda>(k, c). (k, map (\<lambda>e. (pos_x e, pos_y e, pos_z e)) (block_entities c)))
                          (chunks s)) src
             = Some [(((0, 0), (0, 0)), [(105, 10, 5)])])
   \<and> map (\<lambda>e. (pos_x e, pos_y e, pos_z e)) (block_entities (demo_chunk (''w/region'', (0, 0)) (0, 0)))
       = [(5, 10, 5)]
   \<and> map (\<lambda>e. (pos_x e, pos_y e, pos_z e)) (block_entities (demo_chunk (''src/region'', (0, 0)) (0, 0)))
       = [(5, 10, 5)]"
  by code_simp

text \<open>
  C1. With the repetitions \<open>[(16, 0, 0)]\<close>, the copy of the block at \<open>(5, 10, 5)\<close> to
  \<open>(105, 10, 5)\<close> buffers one write, at \<open>(121, 10, 5)\<close> (chunk \<open>(7, 0)\<close>), and none at the
  base destination \<open>(105, 10, 5)\<close> (chunk \<open>(6, 0)\<close>); the chest at \<open>(5, 10, 5)\<close> is staged
  twice, at the base destination and at the repetition.
\<close>

theorem copy_with_repetition_skips_base:
  "(case copy_blocks demo (5, 10, 5) (105, 10, 5) (1, 1, 1) (Some [(16, 0, 0)]) None (world0, Editor ''w'') of
     (r, w, ed) \<Rightarrow>
       r = Inr () \<and>
       blocks_map ed = [(((0, 0), (7, 0), 0), [(7, 2649)])] \<and>
       map (\<lambda>(k, es). (k, map pos_x es)) (entities ed)
         = [(((0, 0), (6, 0)), [105]), (((0, 0), (7, 0)), [121])])
   \<and> block_to_id_index anvil 105 10 5 = Inr ((0, 0), (6, 0), 0, 2649)
   \<and> block_to_id_index anvil 121 10 5 = Inr ((0, 0), (7, 0), 0, 2649)"
  by code_simp

text \<open>
  C4. A first copy stages the chest for the chunk \<open>(6, 0)\<close>; a second copy, of a block
  elsewhere, starts from an empty staging dictionary, so the chest is gone before
  \<open>done\<close>: the chunk \<open>(6, 0)\<close> is written with the block of the first copy and without
  its entity.
\<close>

theorem second_copy_drops_staged_entities:
  "(case copy_blocks demo (5, 10, 5) (105, 10, 5) (1, 1, 1) None None (world0, Editor ''w'') of
      (r1, st1) \<Rightarrow>
        (case copy_blocks demo (0, 40, 0) (0, 50, 0) (1, 1, 1) None None st1 of
           (r2, st2) \<Rightarrow>
             (case done_editor demo st2 of
                (r3, w3, ed3) \<Rightarrow>
                  r1 = Inr () \<and> r2 = Inr () \<and> r3 = Inr () \<and>
                  map (\<lambda>(k, es). (k, map pos_x es)) (entities (snd st1)) = [(((0, 0), (6, 0)), [105])] \<and>
                  entities (snd st2) = [] \<and>
                  map fst (blocks_map (snd st2)) = [((0, 0), (6, 0), 0), ((0, 0), (0, 0), 3)] \<and>
                  filter is_write (calls w3)
                    = [WriteRegion ''w/region'' (0, 0) [((6, 0), []), ((0, 0), [])]])))"
  by code_simp

section \<open>Calls and groupings\<close>





lemma calls_within_refl: "calls_within R w w"
  by (simp add: calls_within_def)



lemma get_section_calls:
  assumes "get_section K (rc, cc, yl) (w, ed) = (r, (w', ed'))"
  shows "calls_within {rc} w w'"
  using assms
  by (auto simp: get_section_def chunk_get_section_def calls_within_def Let_def
        split: option.splits sum.splits prod.splits)


lemma dict_append_keys:
  "map fst (dict_append k v d) = (if k \<in> set (map fst d) then map fst d else map fst d @ [k])"
  by (auto simp: dict_append_def update_keys split: option.splits)

lemma dict_append_distinct: "distinct (map fst d) \<Longrightarrow> distinct (map fst (dict_append k v d))"
  by (simp add: dict_append_keys)

lemma dict_append_map_of:
  "map_of (dict_append k v d) k' =
     (if k' = k then Some ((case map_of d k of None \<Rightarrow> [] | Some vs \<Rightarrow> vs) @ [v]) else map_of d k')"
  by (auto simp: dict_append_def update_conv' split: option.splits)

lemma dict_append_key_set: "fst ` set (dict_append k v d) = insert k (fst ` set d)"
proof -
  have "set (map fst (dict_append k v d)) = insert k (set (map fst d))"
    unfolding dict_append_keys by auto
  then show ?thesis by simp
qed

lemma group_keys:
  "fst ` set (foldl (\<lambda>d x. dict_append (kf x) (vf x) d) d0 xs) = fst ` set d0 \<union> kf ` set xs"
  by (induction xs arbitrary: d0) (simp_all add: dict_append_key_set)

lemma group_distinct:
  "distinct (map fst d0) \<Longrightarrow> distinct (map fst (foldl (\<lambda>d x. dict_append (kf x) (vf x) d) d0 xs))"
  by (induction xs arbitrary: d0) (auto simp: dict_append_distinct)

lemma group_map_of:
  "map_of (foldl (\<lambda>d x. dict_append (kf x) (vf x) d) d0 xs) k =
     (let vs = map vf (filter (\<lambda>x. kf x = k) xs) in
      case map_of d0 k of
        None \<Rightarrow> if vs = [] then None else Some vs
      | Some l \<Rightarrow> Some (l @ vs))"
  by (induction xs arbitrary: d0) (auto simp: dict_append_map_of Let_def split: option.splits)

lemma touched_regions_keys:
  "distinct (map fst (touched_regions bm))"
  "fst ` set (touched_regions bm) = region_of ` set bm"
proof -
  show "distinct (map fst (touched_regions bm))"
    unfolding touched_regions_def by (rule group_distinct) simp
  show "fst ` set (touched_regions bm) = region_of ` set bm"
    unfolding touched_regions_def group_keys by (simp add: region_of_def)
qed

lemma chunk_indices_alt:
  "chunk_indices ids = foldl (\<lambda>d x. dict_append (fst x) (snd x) d) [] ids"
  unfolding chunk_indices_def case_prod_beta ..

lemma chunk_indices_keys:
  "distinct (map fst (chunk_indices ids))" "fst ` set (chunk_indices ids) = fst ` set ids"
proof -
  show "distinct (map fst (chunk_indices ids))"
    unfolding chunk_indices_alt by (rule group_distinct) simp
  show "fst ` set (chunk_indices ids) = fst ` set ids"
    unfolding chunk_indices_alt group_keys by simp
qed

lemma touched_regions_chunks:
  assumes "(rc, ids) \<in> set (touched_regions bm)"
  shows "fst ` set (chunk_indices ids) = {cc. \<exists>item \<in> set bm. chunk_of item = (rc, cc)}"
proof -
  have "map_of (touched_regions bm) rc = Some ids"
    using assms by (simp add: map_of_eq_Some_iff [OF touched_regions_keys(1)])
  then have "ids = map (\<lambda>item. (fst (snd (fst item)), snd (snd (fst item)))) (filter (\<lambda>x. fst (fst x) = rc) bm)"
    unfolding touched_regions_def group_map_of
    by (auto simp: Let_def split: if_splits)
  then show ?thesis
    by (auto simp: chunk_indices_keys(2) chunk_of_def image_iff) blast+
qed

section \<open>Storage is written by the commit only\<close>







lemma ensure_write_section_frame:
  assumes "ensure_write_section K (rc, cc, yl) (w, ed) = (r, (w', ed'))"
  shows "persisted w' = persisted w" "path ed' = path ed" "blocks_map ed' = blocks_map ed"
    "entities ed' = entities ed" "sections ed' = sections ed" "calls_within {rc} w w'"
  using assms
  by (auto simp: ensure_write_section_def calls_within_refl
        split: option.splits sum.splits prod.splits
        dest: get_section_frame get_section_calls)

lemma update_section_frame:
  assumes "update_section K ((rc, cc, yl), u) ((w, ed), R) = (r, ((w', ed'), R'))"
  shows "persisted w' = persisted w" "path ed' = path ed" "blocks_map ed' = blocks_map ed"
    "entities ed' = entities ed" "sections ed' = sections ed" "calls_within {rc} w w'"
    "r = Inr () \<longrightarrow> R' = dict_append rc (cc, yl) R"
  using assms
  by (auto simp: update_section_def persisted_def calls_within_def
        split: option.splits sum.splits prod.splits
        dest: ensure_write_section_frame)

text \<open>The first loop of the commit.\<close>

lemma update_loop_frame:
  fixes K :: "('b, 'p, 's, 'r) collab"
  assumes "forM (update_section K) bm (st, R) = (r, (st', R'))"
  shows "persisted (fst st') = persisted (fst st)" "path (snd st') = path (snd st)"
    "blocks_map (snd st') = blocks_map (snd st)" "entities (snd st') = entities (snd st)"
    "sections (snd st') = sections (snd st)"
proof -
  let ?g = "\<lambda>sr :: ('b, 'p, 's) state \<times> (coord \<times> (coord \<times> int) list) list.
      (persisted (fst (fst sr)), path (snd (fst sr)), blocks_map (snd (fst sr)),
       entities (snd (fst sr)), sections (snd (fst sr)))"
  have "?g (snd (forM (update_section K) bm (st, R))) = ?g (st, R)"
  proof (rule forM_invariant)
    fix x :: "section_id \<times> ('b \<times> int) list"
      and s :: "('b, 'p, 's) state \<times> (coord \<times> (coord \<times> int) list) list"
    obtain rc cc yl u where x: "x = ((rc, cc, yl), u)"
      by (metis prod_cases3 surj_pair)
    obtain w ed R0 where s: "s = ((w, ed), R0)"
      by (metis surj_pair)
    obtain r1 w1 ed1 R1 where f: "update_section K x ((w, ed), R0) = (r1, ((w1, ed1), R1))"
      by (metis surj_pair)
    show "?g (snd (update_section K x s)) = ?g s"
      using update_section_frame(1-5) [OF f [unfolded x]] by (simp add: f s)
  qed
  with assms show "persisted (fst st') = persisted (fst st)" "path (snd st') = path (snd st)"
    "blocks_map (snd st') = blocks_map (snd st)" "entities (snd st') = entities (snd st)"
    "sections (snd st') = sections (snd st)"
    by simp_all
qed


lemma update_loop_regions:
  assumes "forM (update_section K) bm (st, R) = (Inr (), (st', R'))"
  shows "R' = foldl (\<lambda>regions item.
             dict_append (fst (fst item)) (fst (snd (fst item)), snd (snd (fst item))) regions) R bm"
  using assms
proof (induction bm arbitrary: st R)
  case Nil
  then show ?case by simp
next
  case (Cons x bm)
  obtain rc cc yl u where x: "x = ((rc, cc, yl), u)"
    by (metis prod_cases3 surj_pair)
  obtain w ed where st: "st = (w, ed)"
    by (cases st)
  obtain r1 w1 ed1 R1 where f: "update_section K x (st, R) = (r1, ((w1, ed1), R1))"
    by (metis surj_pair)
  show ?case
  proof (cases r1)
    case (Inl e)
    with Cons.prems f show ?thesis by simp
  next
    case (Inr v)
    then have "R1 = dict_append rc (cc, yl) R"
      using update_section_frame(7) [OF f [unfolded x st]] by simp
    moreover have "forM (update_section K) bm ((w1, ed1), R1) = (Inr (), (st', R'))"
      using Cons.prems f Inr by simp
    ultimately show ?thesis
      using Cons.IH x by simp
  qed
qed

lemma update_sections_regions:
  "update_sections K st = (Inr (), (st', R')) \<Longrightarrow> R' = touched_regions (blocks_map (snd st))"
  unfolding update_sections_def touched_regions_def by (rule update_loop_regions)










section \<open>A commit without pending writes\<close>

lemma forM_cong:
  assumes "\<And>x s. x \<in> set xs \<Longrightarrow> f x s = f' x s"
  shows "forM f xs s = forM f' xs s"
  using assms by (induction xs arbitrary: s) (simp_all split: prod.splits sum.splits)

lemma get_section_entities:
  "get_section K sid (w, ed\<lparr>entities := e\<rparr>) =
     (case get_section K sid (w, ed) of (r, (w', ed')) \<Rightarrow> (r, (w', ed'\<lparr>entities := e\<rparr>)))"
  by (cases sid) (auto simp: get_section_def Let_def split: option.splits sum.splits prod.splits)

lemma ensure_write_section_entities:
  "ensure_write_section K sid (w, ed\<lparr>entities := e\<rparr>) =
     (case ensure_write_section K sid (w, ed) of (r, (w', ed')) \<Rightarrow> (r, (w', ed'\<lparr>entities := e\<rparr>)))"
  by (auto simp: ensure_write_section_def get_section_entities split: option.splits sum.splits prod.splits)

lemma update_section_entities:
  "update_section K item ((w, ed\<lparr>entities := e\<rparr>), R) =
     (case update_section K item ((w, ed), R) of
        (r, ((w', ed'), R')) \<Rightarrow> (r, ((w', ed'\<lparr>entities := e\<rparr>), R')))"
  by (auto simp: update_section_def ensure_write_section_entities split: sum.splits prod.splits)

lemma update_sections_entities:
  fixes K :: "('b, 'p, 's, 'r) collab"
  shows "update_sections K (w, ed\<lparr>entities := e\<rparr>) =
     (case update_sections K (w, ed) of
        (r, ((w', ed'), R')) \<Rightarrow> (r, ((w', ed'\<lparr>entities := e\<rparr>), R')))"
proof -
  let ?g = "\<lambda>sr :: ('b, 'p, 's) state \<times> (coord \<times> (coord \<times> int) list) list.
      ((fst (fst sr), (snd (fst sr))\<lparr>entities := e\<rparr>), snd sr)"
  have "forM (update_section K) (blocks_map ed) (?g ((w, ed), [])) =
      (case forM (update_section K) (blocks_map ed) ((w, ed), []) of (r, s') \<Rightarrow> (r, ?g s'))"
    by (rule forM_commute) (auto simp: update_section_entities split: prod.splits)
  then show ?thesis
    by (simp add: update_sections_def split: prod.splits)
qed

lemma set_sections_entities:
  "set_sections (w, self\<lparr>entities := e\<rparr>) rc cc yls c = set_sections (w, self) rc cc yls c"
  by (induction yls arbitrary: c) (simp_all split: option.splits)

lemma update_chunk_entities:
  assumes "map_of e (rc, cc) = map_of (entities self) (rc, cc)"
  shows "update_chunk K (self\<lparr>entities := e\<rparr>) rc region (cc, yls) wu =
         update_chunk K self rc region (cc, yls) wu"
  using assms
  by (cases wu) (auto simp: update_chunk_def set_sections_entities Let_def split: sum.splits)

lemma write_region_entities:
  fixes K :: "('b, 'p, 's, 'r) collab"
  assumes "\<And>cc. cc \<in> fst ` set (chunk_indices ids) \<Longrightarrow> map_of e (rc, cc) = map_of (entities self) (rc, cc)"
  shows "write_region K (self\<lparr>entities := e\<rparr>) (rc, ids) w = write_region K self (rc, ids) w"
proof -
  have eq: "forM (update_chunk K (self\<lparr>entities := e\<rparr>) rc region) (chunk_indices ids) s =
        forM (update_chunk K self rc region) (chunk_indices ids) s" for region s
  proof (rule forM_cong)
    fix x :: "coord \<times> int list" and s' :: "('b, 's) world \<times> (coord \<times> bytes) list"
    assume "x \<in> set (chunk_indices ids)"
    then have "map_of e (rc, fst x) = map_of (entities self) (rc, fst x)"
      using assms by simp
    then show "update_chunk K (self\<lparr>entities := e\<rparr>) rc region x s' = update_chunk K self rc region x s'"
      using update_chunk_entities [of e rc "fst x" self K region "snd x" s'] by simp
  qed
  show ?thesis
    by (auto simp: write_region_def eq Let_def split: sum.splits prod.splits)
qed

lemma done_editor_entities:
  fixes K :: "('b, 'p, 's, 'r) collab"
  assumes "\<And>item. item \<in> set (blocks_map ed) \<Longrightarrow> map_of e (chunk_of item) = map_of (entities ed) (chunk_of item)"
  shows "done_editor K (w, ed\<lparr>entities := e\<rparr>) =
     (case done_editor K (w, ed) of (r, (w', ed')) \<Rightarrow> (r, (w', ed'\<lparr>entities := e\<rparr>)))"
proof -
  obtain r1 w1 ed1 R1 where u: "update_sections K (w, ed) = (r1, ((w1, ed1), R1))"
    by (metis surj_pair)
  then have u': "update_sections K (w, ed\<lparr>entities := e\<rparr>) = (r1, ((w1, ed1\<lparr>entities := e\<rparr>), R1))"
    by (simp add: update_sections_entities)
  show ?thesis
  proof (cases r1)
    case (Inl err)
    with u u' show ?thesis by (simp add: done_editor_def)
  next
    case (Inr v)
    then have "update_sections K (w, ed) = (Inr (), ((w1, ed1), R1))"
      using u by simp
    then have R1: "R1 = touched_regions (blocks_map ed)"
      using update_sections_regions by fastforce
    have l: "forM (update_section K) (blocks_map ed) ((w, ed), []) = (r1, ((w1, ed1), R1))"
      using u by (simp add: update_sections_def)
    have e1: "entities ed1 = entities ed"
      using update_loop_frame(4) [OF l] by simp
    have "forM (write_region K (ed1\<lparr>entities := e\<rparr>)) R1 w1 = forM (write_region K ed1) R1 w1"
    proof (rule forM_cong)
      fix x :: "coord \<times> (coord \<times> int) list" and s :: "('b, 's) world"
      assume x: "x \<in> set R1"
      obtain rc ids where xi: "x = (rc, ids)"
        by (cases x)
      have "map_of e (rc, cc) = map_of (entities ed1) (rc, cc)"
        if "cc \<in> fst ` set (chunk_indices ids)" for cc
      proof -
        have "cc \<in> {cc. \<exists>item \<in> set (blocks_map ed). chunk_of item = (rc, cc)}"
          using that touched_regions_chunks [of rc ids "blocks_map ed"] x xi R1 by simp
        then obtain item where i: "item \<in> set (blocks_map ed)" "chunk_of item = (rc, cc)"
          by blast
        show ?thesis
          using assms [OF i(1)] i(2) e1 by simp
      qed
      then show "write_region K (ed1\<lparr>entities := e\<rparr>) x s = write_region K ed1 x s"
        unfolding xi by (rule write_region_entities)
    qed
    with u u' Inr show ?thesis
      by (simp add: done_editor_def split: prod.splits)
  qed
qed

text \<open>
  C10. A commit with an empty pending buffer returns at once: it makes no call on the
  storage and leaves the world and the editor as they were. In general the staged
  entities of a chunk reach a commit only through the chunks of the pending buffer: with
  other staged entities that agree on those chunks, the commit returns the same result,
  makes the same calls and leaves the same world.
\<close>

theorem commit_needs_pending_writes:
  fixes K :: "('b, 'p, 's, 'r) collab"
  shows "(blocks_map ed = [] \<longrightarrow> done_editor K (w, ed) = (Inr (), (w, ed))) \<and>
    ((\<forall>item \<in> set (blocks_map ed). map_of e (chunk_of item) = map_of (entities ed) (chunk_of item)) \<longrightarrow>
       done_editor K (w, ed\<lparr>entities := e\<rparr>) =
         (case done_editor K (w, ed) of (r, (w', ed')) \<Rightarrow> (r, (w', ed'\<lparr>entities := e\<rparr>))))"
proof (intro conjI impI)
  assume "blocks_map ed = []"
  then show "done_editor K (w, ed) = (Inr (), (w, ed))"
    by (simp add: done_editor_def update_sections_def)
next
  assume "\<forall>item \<in> set (blocks_map ed). map_of e (chunk_of item) = map_of (entities ed) (chunk_of item)"
  then show "done_editor K (w, ed\<lparr>entities := e\<rparr>) =
         (case done_editor K (w, ed) of (r, (w', ed')) \<Rightarrow> (r, (w', ed'\<lparr>entities := e\<rparr>)))"
    by (intro done_editor_entities) simp
qed

theorem commit_needs_pending_writes_witness:
  "blocks_map ((Editor ''w'' :: (nat, unit) editor)\<lparr>entities := demo_staged\<rparr>) = []
   \<and> done_editor demo (world0, (Editor ''w'')\<lparr>entities := demo_staged\<rparr>)
       = (Inr (), (world0, (Editor ''w'')\<lparr>entities := demo_staged\<rparr>))
   \<and> blocks_map (snd demo_pending) \<noteq> []
   \<and> done_editor demo (fst demo_pending,
         (snd demo_pending)\<lparr>entities := demo_staged @ entities (snd demo_pending)\<rparr>)
       = (case done_editor demo (fst demo_pending, snd demo_pending) of
            (r, (w', ed')) \<Rightarrow>
              (r, (w', ed'\<lparr>entities := demo_staged @ entities (snd demo_pending)\<rparr>)))"
proof -
  let ?E0 = "(Editor ''w'' :: (nat, unit) editor)\<lparr>entities := demo_staged\<rparr>"
  let ?X = "demo_staged @ entities (snd demo_pending)"
  have h1: "blocks_map ?E0 = []"
    by (simp add: Editor_def)
  have n1: "done_editor demo (world0, ?E0) = (Inr (), (world0, ?E0))"
    by (rule commit_needs_pending_writes
          [where K = demo and ed = ?E0 and w = world0, THEN conjunct1, THEN mp, OF h1])
  have h2: "\<forall>item \<in> set (blocks_map (snd demo_pending)).
      map_of ?X (chunk_of item) = map_of (entities (snd demo_pending)) (chunk_of item)"
    by code_simp
  have n2: "done_editor demo (fst demo_pending, (snd demo_pending)\<lparr>entities := ?X\<rparr>)
       = (case done_editor demo (fst demo_pending, snd demo_pending) of
            (r, (w', ed')) \<Rightarrow> (r, (w', ed'\<lparr>entities := ?X\<rparr>)))"
    by (rule commit_needs_pending_writes
          [where K = demo and ed = "snd demo_pending" and w = "fst demo_pending" and e = ?X,
           THEN conjunct2, THEN mp, OF h2])
  have n3: "blocks_map (snd demo_pending) \<noteq> []"
    by code_simp
  show ?thesis
    by (intro conjI) (rule h1 n1 n3 n2)+
qed

section \<open>Reading a section\<close>

lemma chunk_get_section_result:
  assumes "chunk_get_section c yl w = (r, w')"
  shows "disk w' = disk w" "calls w' = calls w" "next_ref w \<le> next_ref w'"
    "\<And>r'. r' < next_ref w \<Longrightarrow> heap w' r' = heap w r'"
    "case nbt_sections c yl of
       None \<Rightarrow> r = Inl StorageReadError \<and> w' = w
     | Some s \<Rightarrow> r = Inr (next_ref w) \<and> heap w' (next_ref w) = s \<and> next_ref w' = Suc (next_ref w)"
  using assms by (auto simp: chunk_get_section_def split: option.splits)

lemma lookup_chunk_cached:
  "map_of (chunks ed) cid = Some c \<Longrightarrow> lookup_chunk K (w, ed) cid = Inr c"
  by (simp add: lookup_chunk_def)

lemma lookup_chunk_world:
  "disk w' = disk w \<Longrightarrow> lookup_chunk K (w', ed) = lookup_chunk K (w, ed)"
  by (simp add: lookup_chunk_def fun_eq_iff split: option.splits)

lemma lookup_chunk_update:
  assumes "map_of (chunks ed) cid = None" and "lookup_chunk K (w, ed) cid = Inr c"
  shows "lookup_chunk K (w, ed\<lparr>chunks := AList.update cid c (chunks ed)\<rparr>) = lookup_chunk K (w, ed)"
proof
  fix cid'
  show "lookup_chunk K (w, ed\<lparr>chunks := AList.update cid c (chunks ed)\<rparr>) cid' = lookup_chunk K (w, ed) cid'"
    using assms by (cases "cid' = cid") (simp_all add: lookup_chunk_def update_conv' split: option.splits)
qed

text \<open>What reading a section does: a new object with the stored payload.\<close>

lemma get_section_unfold:
  "get_section K (rc, cc, yl) (w, ed) =
     (case map_of (chunks ed) (rc, cc) of
        Some chunk \<Rightarrow> (case chunk_get_section chunk yl w of (r, w') \<Rightarrow> (r, (w', ed)))
      | None \<Rightarrow>
          (case region_open K (disk w) (path ed) rc of
             Inl e \<Rightarrow> (Inl e, (w\<lparr>calls := calls w @ [OpenRegion (path ed) rc]\<rparr>, ed))
           | Inr region \<Rightarrow>
               (case region_read_chunk K region cc of
                  Inl e \<Rightarrow>
                    (Inl e, (w\<lparr>calls := calls w @ [OpenRegion (path ed) rc, ReadChunk (path ed) rc cc]\<rparr>, ed))
                | Inr chunk \<Rightarrow>
                    (case chunk_get_section chunk yl
                            (w\<lparr>calls := calls w @ [OpenRegion (path ed) rc, ReadChunk (path ed) rc cc]\<rparr>) of
                       (r, w') \<Rightarrow> (r, (w', ed\<lparr>chunks := AList.update (rc, cc) chunk (chunks ed)\<rparr>))))))"
  by (simp add: get_section_def Let_def split: option.splits sum.splits)

lemma stored_section_unfold:
  "stored_section K (w, ed) (rc, cc, yl) =
     (case lookup_chunk K (w, ed) (rc, cc) of
        Inl e \<Rightarrow> Inl e
      | Inr c \<Rightarrow> (case nbt_sections c yl of None \<Rightarrow> Inl StorageReadError | Some s \<Rightarrow> Inr s))"
  by (simp add: stored_section_def split: sum.splits)

lemma get_section_from_chunk:
  assumes g: "chunk_get_section c yl w0 = (r, w')" and d: "disk w0 = disk w" "next_ref w0 = next_ref w"
    "heap w0 = heap w"
    and l: "lookup_chunk K (w, ed) (rc, cc) = Inr c"
    and l': "lookup_chunk K (w, ed') = lookup_chunk K (w, ed)"
  shows "lookup_chunk K (w', ed') = lookup_chunk K (w, ed) \<and> next_ref w \<le> next_ref w' \<and>
    (\<forall>r'. r' < next_ref w \<longrightarrow> heap w' r' = heap w r') \<and>
    (case stored_section K (w, ed) (rc, cc, yl) of
           Inl e \<Rightarrow> r = Inl e
         | Inr s \<Rightarrow> r = Inr (next_ref w) \<and> heap w' (next_ref w) = s \<and> next_ref w' = Suc (next_ref w))"
proof (intro conjI)
  note cr = chunk_get_section_result [OF g]
  have "disk w' = disk w"
    using cr(1) d(1) by simp
  then have "lookup_chunk K (w', ed') = lookup_chunk K (w, ed')"
    by (rule lookup_chunk_world)
  then show "lookup_chunk K (w', ed') = lookup_chunk K (w, ed)"
    using l' by simp
  show "next_ref w \<le> next_ref w'"
    using cr(3) d(2) by simp
  show "\<forall>r'. r' < next_ref w \<longrightarrow> heap w' r' = heap w r'"
    using cr(4) d(2,3) by simp
  have s: "stored_section K (w, ed) (rc, cc, yl) =
      (case nbt_sections c yl of None \<Rightarrow> Inl StorageReadError | Some s \<Rightarrow> Inr s)"
    unfolding stored_section_unfold l by simp
  show "case stored_section K (w, ed) (rc, cc, yl) of
           Inl e \<Rightarrow> r = Inl e
         | Inr s \<Rightarrow> r = Inr (next_ref w) \<and> heap w' (next_ref w) = s \<and> next_ref w' = Suc (next_ref w)"
  proof (cases "nbt_sections c yl")
    case None
    with cr(5) s show ?thesis by simp
  next
    case (Some a)
    with cr(5) s d(2) show ?thesis by simp
  qed
qed

lemma get_section_result_all:
  assumes "get_section K (rc, cc, yl) (w, ed) = (r, (w', ed'))"
  shows "lookup_chunk K (w', ed') = lookup_chunk K (w, ed) \<and> next_ref w \<le> next_ref w' \<and>
    (\<forall>r'. r' < next_ref w \<longrightarrow> heap w' r' = heap w r') \<and>
    (case stored_section K (w, ed) (rc, cc, yl) of
           Inl e \<Rightarrow> r = Inl e
         | Inr s \<Rightarrow> r = Inr (next_ref w) \<and> heap w' (next_ref w) = s \<and> next_ref w' = Suc (next_ref w))"
proof (cases "map_of (chunks ed) (rc, cc)")
  case (Some c)
  obtain r0 w0 where g: "chunk_get_section c yl w = (r0, w0)"
    by (cases "chunk_get_section c yl w")
  have res: "r = r0" "w' = w0" "ed' = ed"
    using assms Some g by (auto simp: get_section_unfold)
  have l: "lookup_chunk K (w, ed) (rc, cc) = Inr c"
    using Some by (rule lookup_chunk_cached)
  show ?thesis
    unfolding res using get_section_from_chunk [OF g _ _ _ l] by simp
next
  case None
  let ?w1 = "w\<lparr>calls := calls w @ [OpenRegion (path ed) rc]\<rparr>"
  let ?w2 = "w\<lparr>calls := calls w @ [OpenRegion (path ed) rc, ReadChunk (path ed) rc cc]\<rparr>"
  show ?thesis
  proof (cases "region_open K (disk w) (path ed) rc")
    case (Inl e)
    then have res: "r = Inl e" "w' = ?w1" "ed' = ed"
      using assms None by (auto simp: get_section_unfold)
    have s: "stored_section K (w, ed) (rc, cc, yl) = Inl e"
      using None Inl by (simp add: stored_section_unfold lookup_chunk_def)
    have "lookup_chunk K (?w1, ed) = lookup_chunk K (w, ed)"
      by (rule lookup_chunk_world) simp
    then show ?thesis
      unfolding res s by simp
  next
    case (Inr region)
    show ?thesis
    proof (cases "region_read_chunk K region cc")
      case (Inl e)
      then have res: "r = Inl e" "w' = ?w2" "ed' = ed"
        using assms None Inr by (auto simp: get_section_unfold)
      have s: "stored_section K (w, ed) (rc, cc, yl) = Inl e"
        using None Inr Inl by (simp add: stored_section_unfold lookup_chunk_def)
      have "lookup_chunk K (?w2, ed) = lookup_chunk K (w, ed)"
        by (rule lookup_chunk_world) simp
      then show ?thesis
        unfolding res s by simp
    next
      case c: (Inr c)
      obtain r0 w0 where g: "chunk_get_section c yl ?w2 = (r0, w0)"
        by (cases "chunk_get_section c yl ?w2")
      let ?ed' = "ed\<lparr>chunks := AList.update (rc, cc) c (chunks ed)\<rparr>"
      have res: "r = r0" "w' = w0" "ed' = ?ed'"
        using assms None Inr c g by (auto simp: get_section_unfold)
      have lk: "lookup_chunk K (w, ed) (rc, cc) = Inr c"
        using None Inr c by (simp add: lookup_chunk_def)
      have l': "lookup_chunk K (w, ?ed') = lookup_chunk K (w, ed)"
        using None lk by (rule lookup_chunk_update)
      show ?thesis
        unfolding res using get_section_from_chunk [OF g _ _ _ lk l'] by simp
    qed
  qed
qed

lemma get_section_result:
  assumes "get_section K sid (w, ed) = (r, (w', ed'))"
  shows "lookup_chunk K (w', ed') = lookup_chunk K (w, ed)"
    and "next_ref w \<le> next_ref w'"
    and "\<And>r'. r' < next_ref w \<Longrightarrow> heap w' r' = heap w r'"
    and "case stored_section K (w, ed) sid of
           Inl e \<Rightarrow> r = Inl e
         | Inr s \<Rightarrow> r = Inr (next_ref w) \<and> heap w' (next_ref w) = s \<and> next_ref w' = Suc (next_ref w)"
proof -
  obtain rc cc yl where sid: "sid = (rc, cc, yl)"
    by (cases sid)
  note all = get_section_result_all [OF assms [unfolded sid]]
  from all show "lookup_chunk K (w', ed') = lookup_chunk K (w, ed)" by (rule conjunct1)
  from all show "next_ref w \<le> next_ref w'" by (rule conjunct2 [THEN conjunct1])
  from all show "\<And>r'. r' < next_ref w \<Longrightarrow> heap w' r' = heap w r'" by simp
  from all show "case stored_section K (w, ed) sid of
           Inl e \<Rightarrow> r = Inl e
         | Inr s \<Rightarrow> r = Inr (next_ref w) \<and> heap w' (next_ref w) = s \<and> next_ref w' = Suc (next_ref w)"
    unfolding sid by (rule conjunct2 [THEN conjunct2, THEN conjunct2])
qed

lemma get_block_value: "fst (get_block K x y z st) = read_value K st x y z"
proof (cases "indexer K x y z")
  case (Inl e)
  then show ?thesis by (simp add: get_block_def read_value_def)
next
  case (Inr a)
  obtain rc cc yl bi where a: "a = (rc, cc, yl, bi)"
    by (metis prod_cases4)
  obtain w ed where st: "st = (w, ed)"
    by (cases st)
  show ?thesis
  proof (cases "sections ed (rc, cc, yl)")
    case (Some r)
    with Inr a st show ?thesis by (simp add: get_block_def read_value_def)
  next
    case None
    obtain r w' ed' where g: "get_section K (rc, cc, yl) (w, ed) = (r, (w', ed'))"
      by (metis surj_pair)
    note gr = get_section_result(4) [OF g]
    show ?thesis
    proof (cases "stored_section K (w, ed) (rc, cc, yl)")
      case (Inl e)
      with gr have "r = Inl e" by simp
      with Inr a st None g Inl show ?thesis
        by (simp add: get_block_def read_value_def)
    next
      case s: (Inr s)
      with gr have "r = Inr (next_ref w)" "heap w' (next_ref w) = s" by simp_all
      with Inr a st None g s show ?thesis
        by (simp add: get_block_def read_value_def)
    qed
  qed
qed

section \<open>The write-side sections\<close>

lemma lookup_chunk_cong:
  "disk w' = disk w \<Longrightarrow> chunks ed' = chunks ed \<Longrightarrow> path ed' = path ed \<Longrightarrow>
   lookup_chunk K (w', ed') = lookup_chunk K (w, ed)"
  by (simp add: lookup_chunk_def fun_eq_iff split: option.splits)

lemma update_section_unfold:
  "update_section K ((rc, cc, yl), u) (st, R) =
     (case ensure_write_section K (rc, cc, yl) st of
        (Inl e, st') \<Rightarrow> (Inl e, (st', R))
      | (Inr r, (w1, ed1)) \<Rightarrow>
          (Inr (), ((w1\<lparr>heap := (heap w1)(r := apply_updates (heap w1 r) u)\<rparr>, ed1),
                    dict_append rc (cc, yl) R)))"
  by (simp add: update_section_def)

text \<open>One round of the first loop of the commit, in full.\<close>

lemma update_section_effect:
  fixes K :: "('b, 'p, 's, 'r) collab"
  assumes "update_section K (sid, u) ((w, ed), R) = (res, ((w', ed'), R'))"
  shows "sections ed' = sections ed \<and> blocks_map ed' = blocks_map ed \<and>
    lookup_chunk K (w', ed') = lookup_chunk K (w, ed) \<and> next_ref w \<le> next_ref w' \<and>
    (\<exists>r. (write_sections ed sid = Some r \<or>
           (write_sections ed sid = None \<and> r = next_ref w \<and> (res = Inr () \<longrightarrow> r < next_ref w'))) \<and>
         (\<forall>r'. r' < next_ref w \<longrightarrow> r' \<noteq> r \<longrightarrow> heap w' r' = heap w r') \<and>
         (if res = Inr ()
          then write_sections ed' = (write_sections ed)(sid \<mapsto> r) \<and>
               (\<exists>s. write_base K (w, ed) sid = Inr s \<and> heap w' r = apply_updates s u)
          else write_sections ed' = write_sections ed))"
proof -
  obtain rc cc yl where sid: "sid = (rc, cc, yl)"
    by (cases sid)
  note a = assms [unfolded sid update_section_unfold]
  show ?thesis
  proof (cases "write_sections ed sid")
    case (Some r)
    then have e: "ensure_write_section K (rc, cc, yl) (w, ed) = (Inr r, (w, ed))"
      by (simp add: ensure_write_section_def sid)
    have res: "res = Inr ()" "w' = w\<lparr>heap := (heap w)(r := apply_updates (heap w r) u)\<rparr>" "ed' = ed"
      using a e by simp_all
    have wb: "write_base K (w, ed) sid = Inr (heap w r)"
      using Some by (simp add: write_base_def)
    have l: "lookup_chunk K (w', ed') = lookup_chunk K (w, ed)"
      unfolding res by (rule lookup_chunk_cong) simp_all
    have ws: "write_sections ed' = (write_sections ed)(sid \<mapsto> r)"
      unfolding res using Some by (simp add: fun_upd_idem)
    have h: "heap w' r = apply_updates (heap w r) u" "\<forall>r'. r' \<noteq> r \<longrightarrow> heap w' r' = heap w r'"
      unfolding res by simp_all
    have n: "next_ref w' = next_ref w" "sections ed' = sections ed" "blocks_map ed' = blocks_map ed"
      unfolding res by simp_all
    show ?thesis
      using Some l ws h n wb res(1) by auto
  next
    case None
    obtain r1 w1 ed1 where g: "get_section K (rc, cc, yl) (w, ed) = (r1, (w1, ed1))"
      by (metis surj_pair)
    note fr = get_section_frame [OF g]
    note gr = get_section_result [OF g]
    show ?thesis
    proof (cases r1)
      case (Inl e)
      then have e: "ensure_write_section K (rc, cc, yl) (w, ed) = (Inl e, (w1, ed1))"
        using None g by (simp add: ensure_write_section_def sid)
      have res: "res = Inl e" "w' = w1" "ed' = ed1"
        using a e by simp_all
      show ?thesis
        unfolding res using None fr gr(1,2,3) by auto
    next
      case (Inr r)
      then have e: "ensure_write_section K (rc, cc, yl) (w, ed) =
          (Inr r, (w1, ed1\<lparr>write_sections := (write_sections ed1)(sid \<mapsto> r)\<rparr>))"
        using None g by (simp add: ensure_write_section_def sid)
      let ?ed' = "ed1\<lparr>write_sections := (write_sections ed1)(sid \<mapsto> r)\<rparr>"
      have res: "res = Inr ()" "w' = w1\<lparr>heap := (heap w1)(r := apply_updates (heap w1 r) u)\<rparr>"
        "ed' = ?ed'"
        using a e by simp_all
      obtain s where s: "stored_section K (w, ed) sid = Inr s" "r = next_ref w" "heap w1 r = s"
        "next_ref w1 = Suc (next_ref w)"
        using gr(4) Inr unfolding sid by (cases "stored_section K (w, ed) (rc, cc, yl)") auto
      have wb: "write_base K (w, ed) sid = Inr s"
        using None s(1) by (simp add: write_base_def)
      have "lookup_chunk K (w', ed') = lookup_chunk K (w1, ed1)"
        unfolding res by (rule lookup_chunk_cong) simp_all
      then have l: "lookup_chunk K (w', ed') = lookup_chunk K (w, ed)"
        using gr(1) by simp
      have ws: "write_sections ed' = (write_sections ed)(sid \<mapsto> r)"
        unfolding res using fr(4) by simp
      have h: "heap w' r = apply_updates s u"
        "\<forall>r'. r' < next_ref w \<longrightarrow> r' \<noteq> r \<longrightarrow> heap w' r' = heap w r'"
        unfolding res using s(3) gr(3) by simp_all
      have n: "next_ref w' = Suc (next_ref w)" "sections ed' = sections ed"
        "blocks_map ed' = blocks_map ed"
        unfolding res using s(4) fr by simp_all
      show ?thesis
        using None l ws h n wb res(1) s(2) by auto
    qed
  qed
qed

lemma update_section_effectE:
  fixes K :: "('b, 'p, 's, 'r) collab"
  assumes "update_section K (sid, u) ((w, ed), R) = (res, ((w', ed'), R'))"
  obtains r where "sections ed' = sections ed" "blocks_map ed' = blocks_map ed"
    "lookup_chunk K (w', ed') = lookup_chunk K (w, ed)" "next_ref w \<le> next_ref w'"
    "write_sections ed sid = Some r \<or>
       (write_sections ed sid = None \<and> r = next_ref w \<and> (res = Inr () \<longrightarrow> r < next_ref w'))"
    "\<And>r'. r' < next_ref w \<Longrightarrow> r' \<noteq> r \<Longrightarrow> heap w' r' = heap w r'"
    "res = Inr () \<Longrightarrow> write_sections ed' = (write_sections ed)(sid \<mapsto> r)"
    "res = Inr () \<Longrightarrow> \<exists>s. write_base K (w, ed) sid = Inr s \<and> heap w' r = apply_updates s u"
    "res \<noteq> Inr () \<Longrightarrow> write_sections ed' = write_sections ed"
  using update_section_effect [OF assms]
  apply (elim conjE exE)
  subgoal for r
    apply (rule that [of r])
            apply (simp_all split: if_splits)
    done
  done

lemma cache_okI:
  assumes "\<And>sid r. sections ed sid = Some r \<Longrightarrow> r < next_ref w"
    "\<And>sid r. write_sections ed sid = Some r \<Longrightarrow> r < next_ref w"
    "\<And>sid sid' r. write_sections ed sid = Some r \<Longrightarrow> write_sections ed sid' = Some r \<Longrightarrow> sid = sid'"
    "\<And>sid sid' r. sections ed sid = Some r \<Longrightarrow> write_sections ed sid' \<noteq> Some r"
    "distinct (map fst (blocks_map ed))"
  shows "cache_ok (w, ed)"
  unfolding cache_ok_def fst_conv snd_conv using assms by blast

lemma cache_okD:
  assumes "cache_ok (w, ed)"
  shows "\<And>sid r. sections ed sid = Some r \<Longrightarrow> r < next_ref w"
    "\<And>sid r. write_sections ed sid = Some r \<Longrightarrow> r < next_ref w"
    "\<And>sid sid' r. write_sections ed sid = Some r \<Longrightarrow> write_sections ed sid' = Some r \<Longrightarrow> sid = sid'"
    "\<And>sid sid' r. sections ed sid = Some r \<Longrightarrow> write_sections ed sid' \<noteq> Some r"
    "distinct (map fst (blocks_map ed))"
  using assms unfolding cache_ok_def fst_conv snd_conv by blast+

lemma cache_ok_mono:
  assumes ok: "cache_ok (w, ed)" and "next_ref w \<le> next_ref w'" "sections ed' = sections ed"
    "write_sections ed' = write_sections ed" "blocks_map ed' = blocks_map ed"
  shows "cache_ok (w', ed')"
proof (rule cache_okI)
  note o = cache_okD [OF ok]
  show "r < next_ref w'" if "sections ed' sid = Some r" for sid r
    using that o(1) [of sid r] assms(2,3) by simp
  show "r < next_ref w'" if "write_sections ed' sid = Some r" for sid r
    using that o(2) [of sid r] assms(2,4) by simp
  show "sid = sid'" if "write_sections ed' sid = Some r" "write_sections ed' sid' = Some r" for sid sid' r
    using that o(3) [of sid r sid'] assms(4) by simp
  show "write_sections ed' sid' \<noteq> Some r" if "sections ed' sid = Some r" for sid sid' r
    using that o(4) [of sid r sid'] assms(3,4) by simp
  show "distinct (map fst (blocks_map ed'))"
    using o(5) assms(5) by simp
qed

lemma update_section_cache_ok:
  fixes K :: "('b, 'p, 's, 'r) collab"
  assumes u: "update_section K (sid, u) ((w, ed), R) = (res, ((w', ed'), R'))"
    and ok: "cache_ok (w, ed)"
  shows "cache_ok (w', ed')"
proof -
  from u obtain r where
    e: "sections ed' = sections ed" "blocks_map ed' = blocks_map ed" "next_ref w \<le> next_ref w'"
    and r: "write_sections ed sid = Some r \<or>
           (write_sections ed sid = None \<and> r = next_ref w \<and> (res = Inr () \<longrightarrow> r < next_ref w'))"
    and ws: "res = Inr () \<Longrightarrow> write_sections ed' = (write_sections ed)(sid \<mapsto> r)"
      "res \<noteq> Inr () \<Longrightarrow> write_sections ed' = write_sections ed"
    by (rule update_section_effectE) blast
  note o = cache_okD [OF ok]
  show ?thesis
  proof (cases "res = Inr ()")
    case False
    then have "write_sections ed' = write_sections ed"
      by (rule ws(2))
    with ok e show ?thesis
      by (intro cache_ok_mono [of w ed w' ed']) simp_all
  next
    case True
    then have w: "write_sections ed' = (write_sections ed)(sid \<mapsto> r)"
      by (rule ws(1))
    show ?thesis
    proof (cases "write_sections ed sid")
      case (Some r0)
      then have "r0 = r"
        using r by simp
      then have "write_sections ed' = write_sections ed"
        using Some w by (simp add: fun_upd_idem)
      with ok e show ?thesis
        by (intro cache_ok_mono [of w ed w' ed']) simp_all
    next
      case None
      then have rn: "r = next_ref w" "r < next_ref w'"
        using r True by simp_all
      have fresh: "write_sections ed sid' \<noteq> Some r" "sections ed sid' \<noteq> Some r" for sid'
        using o(1) [of sid' r] o(2) [of sid' r] rn(1) by auto
      show ?thesis
      proof (rule cache_okI)
        show "r1 < next_ref w'" if "sections ed' sid1 = Some r1" for sid1 r1
          using that e o(1) [of sid1 r1] by simp
        show "r1 < next_ref w'" if "write_sections ed' sid1 = Some r1" for sid1 r1
        proof (cases "sid1 = sid")
          case True
          with that w rn show ?thesis by simp
        next
          case False
          with that w have "write_sections ed sid1 = Some r1" by simp
          then show ?thesis
            using o(2) [of sid1 r1] e(3) by simp
        qed
        show "sid1 = sid2"
          if "write_sections ed' sid1 = Some r1" "write_sections ed' sid2 = Some r1" for sid1 sid2 r1
        proof -
          have c: "(sid' = sid \<and> r1 = r) \<or> (sid' \<noteq> sid \<and> write_sections ed sid' = Some r1)"
            if "write_sections ed' sid' = Some r1" for sid'
            using that w by (cases "sid' = sid") simp_all
          show ?thesis
            using c [OF that(1)] c [OF that(2)] fresh(1) o(3) [of sid1 r1 sid2] by blast
        qed
        show "write_sections ed' sid2 \<noteq> Some r1" if "sections ed' sid1 = Some r1" for sid1 sid2 r1
        proof -
          have s1: "sections ed sid1 = Some r1"
            using that e(1) by simp
          show ?thesis
          proof (cases "sid2 = sid")
            case True
            then show ?thesis
              using w fresh(2) [of sid1] s1 by auto
          next
            case False
            then show ?thesis
              using w o(4) [OF s1, of sid2] by simp
          qed
        qed
        show "distinct (map fst (blocks_map ed'))"
          using e(2) o(5) by simp
      qed
    qed
  qed
qed

lemma update_section_reads_kept:
  fixes K :: "('b, 'p, 's, 'r) collab"
  assumes u: "update_section K (sid, u) ((w, ed), R) = (res, ((w', ed'), R'))"
    and ok: "cache_ok (w, ed)" and k: "reads_kept K st0 (w, ed)"
  shows "reads_kept K st0 (w', ed')"
proof -
  from u obtain r where
    e: "sections ed' = sections ed" "lookup_chunk K (w', ed') = lookup_chunk K (w, ed)"
      "next_ref w \<le> next_ref w'"
    and r: "write_sections ed sid = Some r \<or>
           (write_sections ed sid = None \<and> r = next_ref w \<and> (res = Inr () \<longrightarrow> r < next_ref w'))"
    and h: "\<And>r'. r' < next_ref w \<Longrightarrow> r' \<noteq> r \<Longrightarrow> heap w' r' = heap w r'"
    and ws: "res = Inr () \<Longrightarrow> write_sections ed' = (write_sections ed)(sid \<mapsto> r)"
      "res \<noteq> Inr () \<Longrightarrow> write_sections ed' = write_sections ed"
    by (rule update_section_effectE) blast
  have k': "sections ed = sections (snd st0)" "lookup_chunk K (w, ed) = lookup_chunk K st0"
    "next_ref (fst st0) \<le> next_ref w"
    "\<And>r. r < next_ref (fst st0) \<Longrightarrow> (\<forall>sid. write_sections (snd st0) sid \<noteq> Some r)
        \<Longrightarrow> heap w r = heap (fst st0) r"
    "\<And>sid r. write_sections ed sid = Some r
        \<Longrightarrow> write_sections (snd st0) sid = Some r \<or> next_ref (fst st0) \<le> r"
    using k unfolding reads_kept_def fst_conv snd_conv by blast+
  have rr: "write_sections (snd st0) sid = Some r \<or> next_ref (fst st0) \<le> r"
  proof (cases "write_sections ed sid")
    case None
    with r k'(3) show ?thesis by simp
  next
    case (Some r0)
    with r have "write_sections ed sid = Some r" by simp
    then show ?thesis by (rule k'(5))
  qed
  show ?thesis
    unfolding reads_kept_def fst_conv snd_conv
  proof (intro conjI allI impI)
    show "sections ed' = sections (snd st0)"
      using e(1) k'(1) by simp
    show "lookup_chunk K (w', ed') = lookup_chunk K st0"
      using e(2) k'(2) by simp
    show "next_ref (fst st0) \<le> next_ref w'"
      using e(3) k'(3) by simp
  next
    fix r' assume a: "r' < next_ref (fst st0)" "\<forall>sid. write_sections (snd st0) sid \<noteq> Some r'"
    then have "r' \<noteq> r"
      using rr by (metis not_less)
    moreover have "r' < next_ref w"
      using a(1) k'(3) by simp
    ultimately have "heap w' r' = heap w r'"
      by (intro h)
    then show "heap w' r' = heap (fst st0) r'"
      using k'(4) [OF a] by simp
  next
    fix sid1 r1 assume "write_sections ed' sid1 = Some r1"
    then have "write_sections ed sid1 = Some r1 \<or> (sid1 = sid \<and> r1 = r)"
      using ws by (cases "res = Inr ()"; cases "sid1 = sid") simp_all
    then show "write_sections (snd st0) sid1 = Some r1 \<or> next_ref (fst st0) \<le> r1"
      using k'(5) [of sid1 r1] rr by blast
  qed
qed

lemma update_section_others:
  fixes K :: "('b, 'p, 's, 'r) collab"
  assumes u: "update_section K (sid, u) ((w, ed), R) = (res, ((w', ed'), R'))"
    and ok: "cache_ok (w, ed)" and ne: "sid' \<noteq> sid"
  shows "write_base K (w', ed') sid' = write_base K (w, ed) sid'"
    and "write_sections ed sid' = Some r' \<Longrightarrow>
           write_sections ed' sid' = Some r' \<and> heap w' r' = heap w r'"
proof -
  from u obtain r where
    e: "lookup_chunk K (w', ed') = lookup_chunk K (w, ed)"
    and r: "write_sections ed sid = Some r \<or>
           (write_sections ed sid = None \<and> r = next_ref w \<and> (res = Inr () \<longrightarrow> r < next_ref w'))"
    and h: "\<And>r'. r' < next_ref w \<Longrightarrow> r' \<noteq> r \<Longrightarrow> heap w' r' = heap w r'"
    and ws: "res = Inr () \<Longrightarrow> write_sections ed' = (write_sections ed)(sid \<mapsto> r)"
      "res \<noteq> Inr () \<Longrightarrow> write_sections ed' = write_sections ed"
    by (rule update_section_effectE) blast
  note o = cache_okD(2,3) [OF ok]
  have same: "write_sections ed' sid' = write_sections ed sid'"
    using ws ne by (cases "res = Inr ()") simp_all
  have keep: "heap w' r1 = heap w r1" if "write_sections ed sid' = Some r1" for r1
  proof -
    have "r1 < next_ref w"
      using that by (rule o(1))
    moreover have "r1 \<noteq> r"
    proof (cases "write_sections ed sid")
      case None
      with r calculation show ?thesis by simp
    next
      case (Some r0)
      with r have "write_sections ed sid = Some r" by simp
      then show ?thesis
        using that o(2) [of sid' r1 sid] ne by blast
    qed
    ultimately show ?thesis
      by (rule h)
  qed
  have st: "stored_section K (w', ed') sid' = stored_section K (w, ed) sid'"
    by (simp add: stored_section_def e)
  show "write_base K (w', ed') sid' = write_base K (w, ed) sid'"
    using same keep st by (cases "write_sections ed sid'") (simp_all add: write_base_def)
  show "write_sections ed sid' = Some r' \<Longrightarrow>
           write_sections ed' sid' = Some r' \<and> heap w' r' = heap w r'"
    using same keep by simp
qed

lemma reads_kept_refl: "reads_kept K st st"
  by (simp add: reads_kept_def)

lemma update_loop_invariants:
  fixes K :: "('b, 'p, 's, 'r) collab"
  assumes ok: "cache_ok st" and l: "forM (update_section K) bm (st, R) = (res, (st', R'))"
  shows "cache_ok st'" "reads_kept K st st'"
proof -
  let ?P = "\<lambda>sr :: ('b, 'p, 's) state \<times> (coord \<times> (coord \<times> int) list) list.
      cache_ok (fst sr) \<and> reads_kept K st (fst sr)"
  have "?P (snd (forM (update_section K) bm (st, R)))"
  proof (rule forM_preserves [where P = ?P])
    show "?P (st, R)"
      using ok by (simp add: reads_kept_refl)
  next
    fix x :: "section_id \<times> ('b \<times> int) list"
      and s :: "('b, 'p, 's) state \<times> (coord \<times> (coord \<times> int) list) list"
    assume p: "?P s"
    obtain sid u where x: "x = (sid, u)"
      by (cases x)
    obtain w ed R0 where s: "s = ((w, ed), R0)"
      by (metis surj_pair)
    obtain r1 w1 ed1 R1 where f: "update_section K (sid, u) ((w, ed), R0) = (r1, ((w1, ed1), R1))"
      by (metis surj_pair)
    have "cache_ok (w1, ed1)"
      using update_section_cache_ok [OF f] p s by simp
    moreover have "reads_kept K st (w1, ed1)"
      using update_section_reads_kept [OF f] p s by simp
    ultimately show "?P (snd (update_section K x s))"
      by (simp add: x s f)
  qed
  with l show "cache_ok st'" "reads_kept K st st'"
    by simp_all
qed

lemma reads_kept_value:
  assumes ok: "cache_ok st0" and k: "reads_kept K st0 st"
  shows "read_value K st x y z = read_value K st0 x y z"
proof (cases "indexer K x y z")
  case (Inl e)
  then show ?thesis by (simp add: read_value_def)
next
  case (Inr a)
  obtain rc cc yl bi where a: "a = (rc, cc, yl, bi)"
    by (metis prod_cases4)
  obtain w0 ed0 where st0: "st0 = (w0, ed0)"
    by (cases st0)
  note o = cache_okD [OF ok [unfolded st0]]
  have k': "sections (snd st) = sections ed0" "lookup_chunk K st = lookup_chunk K st0"
    "\<And>r. r < next_ref w0 \<Longrightarrow> (\<forall>sid. write_sections ed0 sid \<noteq> Some r)
        \<Longrightarrow> heap (fst st) r = heap w0 r"
    using k unfolding reads_kept_def st0 fst_conv snd_conv by blast+
  have s: "stored_section K st (rc, cc, yl) = stored_section K st0 (rc, cc, yl)"
    by (simp add: stored_section_def k'(2))
  show ?thesis
  proof (cases "sections ed0 (rc, cc, yl)")
    case None
    with Inr a k'(1) s st0 show ?thesis
      by (simp add: read_value_def)
  next
    case (Some r)
    have "heap (fst st) r = heap w0 r"
      using o(1) [OF Some] o(4) [OF Some] by (intro k'(3)) simp_all
    with Inr a k'(1) Some st0 show ?thesis
      by (simp add: read_value_def)
  qed
qed

lemma update_chunk_heap:
  "(\<lambda>wu. (heap (fst wu), next_ref (fst wu))) (snd (update_chunk K self rc region item wu))
     = (\<lambda>wu. (heap (fst wu), next_ref (fst wu))) wu"
  by (cases item; cases wu) (simp add: update_chunk_def Let_def split: sum.splits)

lemma write_region_heap:
  fixes K :: "('b, 'p, 's, 'r) collab"
  shows "(\<lambda>w. (heap w, next_ref w)) (snd (write_region K self item w)) = (\<lambda>w. (heap w, next_ref w)) w"
proof -
  obtain rc ids where i: "item = (rc, ids)"
    by (cases item)
  let ?w1 = "w\<lparr>calls := calls w @ [OpenRegion (path self) rc]\<rparr>"
  have c: "(\<lambda>wu. (heap (fst wu), next_ref (fst wu)))
            (snd (forM (update_chunk K self rc region) (chunk_indices ids) (?w1, [])))
          = (heap w, next_ref w)" for region
    using forM_invariant [of "chunk_indices ids" "\<lambda>wu. (heap (fst wu), next_ref (fst wu))"
        "update_chunk K self rc region" "(?w1, [])"] update_chunk_heap [of K self rc region]
    by simp
  show ?thesis
  proof (cases "region_open K (disk w) (path self) rc")
    case (Inl e)
    then show ?thesis by (simp add: write_region_def i)
  next
    case (Inr region)
    obtain r2 w2 U2 where l:
      "forM (update_chunk K self rc region) (chunk_indices ids) (?w1, []) = (r2, (w2, U2))"
      by (metis surj_pair)
    have "heap w2 = heap w" "next_ref w2 = next_ref w"
      using c [of region] l by simp_all
    then show ?thesis
      using Inr l by (cases r2) (simp_all add: write_region_def i Let_def split: prod.splits)
  qed
qed

lemma region_loop_heap:
  fixes K :: "('b, 'p, 's, 'r) collab"
  assumes "forM (write_region K self) regions w = (r, w')"
  shows "heap w' = heap w" "next_ref w' = next_ref w"
proof -
  have "(\<lambda>w. (heap w, next_ref w)) (snd (forM (write_region K self) regions w))
        = (\<lambda>w. (heap w, next_ref w)) w"
    by (rule forM_invariant) (rule write_region_heap)
  with assms show "heap w' = heap w" "next_ref w' = next_ref w"
    by simp_all
qed

section \<open>States of a running program\<close>

lemma cache_ok_Editor: "cache_ok (w, Editor p)"
  by (rule cache_okI) (simp_all add: Editor_def)

lemma set_block_cache_ok:
  assumes "cache_ok (w, ed)"
  shows "cache_ok (w, snd (set_block K v x y z ed))"
proof -
  note o = cache_okD [OF assms]
  have f: "sections (snd (set_block K v x y z ed)) = sections ed"
    "write_sections (snd (set_block K v x y z ed)) = write_sections ed"
    by (subst set_block_frame, simp)+
  have d: "distinct (map fst (blocks_map (snd (set_block K v x y z ed))))"
    using o(5) by (auto simp: set_block_def Let_def dict_append_distinct split: sum.splits prod.splits)
  show ?thesis
    by (rule cache_okI) (use o f d in \<open>simp_all\<close>)
qed

lemma get_block_cache_ok:
  assumes ok: "cache_ok st"
  shows "cache_ok (snd (get_block K x y z st))"
proof (cases "indexer K x y z")
  case (Inl e)
  with ok show ?thesis by (simp add: get_block_def)
next
  case (Inr a)
  obtain rc cc yl bi where a: "a = (rc, cc, yl, bi)"
    by (metis prod_cases4)
  obtain w ed where st: "st = (w, ed)"
    by (cases st)
  note o = cache_okD [OF ok [unfolded st]]
  show ?thesis
  proof (cases "sections ed (rc, cc, yl)")
    case (Some r)
    with Inr a st ok show ?thesis by (simp add: get_block_def)
  next
    case None
    obtain r w' ed' where g: "get_section K (rc, cc, yl) (w, ed) = (r, (w', ed'))"
      by (metis surj_pair)
    note fr = get_section_frame [OF g]
    note gr = get_section_result [OF g]
    show ?thesis
    proof (cases r)
      case (Inl e)
      have "cache_ok (w', ed')"
        using ok [unfolded st] gr(2) fr(3,4,2) by (rule cache_ok_mono)
      with Inr a st None g Inl show ?thesis
        by (simp add: get_block_def)
    next
      case r: (Inr ref)
      then have n: "ref = next_ref w" "next_ref w' = Suc (next_ref w)"
        using gr(4) by (cases "stored_section K (w, ed) (rc, cc, yl)"; simp)+
      let ?ed = "ed'\<lparr>sections := (sections ed')((rc, cc, yl) \<mapsto> ref)\<rparr>"
      have res: "snd (get_block K x y z st) = (w', ?ed)"
        using Inr a st None g r by (simp add: get_block_def)
      have "cache_ok (w', ?ed)"
      proof (rule cache_okI)
        show "r1 < next_ref w'" if "sections ?ed sid1 = Some r1" for sid1 r1
          using that fr(3) n o(1) [of sid1 r1] by (cases "sid1 = (rc, cc, yl)") simp_all
        show "r1 < next_ref w'" if "write_sections ?ed sid1 = Some r1" for sid1 r1
          using that fr(4) n o(2) [of sid1 r1] by simp
        show "sid1 = sid2" if "write_sections ?ed sid1 = Some r1" "write_sections ?ed sid2 = Some r1"
          for sid1 sid2 r1
          using that fr(4) o(3) [of sid1 r1 sid2] by simp
        show "write_sections ?ed sid2 \<noteq> Some r1" if "sections ?ed sid1 = Some r1" for sid1 sid2 r1
        proof (cases "sid1 = (rc, cc, yl)")
          case True
          with that have "r1 = next_ref w"
            using n by simp
          then show ?thesis
            using fr(4) o(2) [of sid2 r1] by auto
        next
          case False
          with that have "sections ed sid1 = Some r1"
            using fr(3) by simp
          then show ?thesis
            using fr(4) o(4) [of sid1 r1 sid2] by simp
        qed
        show "distinct (map fst (blocks_map ?ed))"
          using fr(2) o(5) by simp
      qed
      with res show ?thesis by simp
    qed
  qed
qed

lemma done_editor_cache_ok:
  fixes K :: "('b, 'p, 's, 'r) collab"
  assumes ok: "cache_ok st" and d: "done_editor K st = (res, st')"
  shows "cache_ok st'" "sections (snd st') = sections (snd st)"
    "\<And>sid r. sections (snd st) sid = Some r \<Longrightarrow> heap (fst st') r = heap (fst st) r"
proof -
  obtain r1 st1 R1 where u: "update_sections K st = (r1, (st1, R1))"
    by (metis surj_pair)
  then have l: "forM (update_section K) (blocks_map (snd st)) (st, []) = (r1, (st1, R1))"
    by (simp add: update_sections_def)
  note inv = update_loop_invariants [OF ok l]
  obtain w1 ed1 where st1: "st1 = (w1, ed1)"
    by (cases st1)
  obtain w0 ed0 where st0: "st = (w0, ed0)"
    by (cases st)
  have "\<exists>w2. st' = (w2, ed1) \<and> heap w2 = heap w1 \<and> next_ref w2 = next_ref w1"
  proof (cases r1)
    case (Inl e)
    with d u st1 show ?thesis by (auto simp: done_editor_def)
  next
    case (Inr v)
    obtain r2 w2 where f: "forM (write_region K ed1) R1 w1 = (r2, w2)"
      by (metis surj_pair)
    have "st' = (w2, ed1)"
      using d u Inr st1 f by (auto simp: done_editor_def)
    with region_loop_heap [OF f] show ?thesis by simp
  qed
  then obtain w2 where w2: "st' = (w2, ed1)" "heap w2 = heap w1" "next_ref w2 = next_ref w1"
    by blast
  show c: "cache_ok st'"
    unfolding w2(1) using inv(1) [unfolded st1] by (rule cache_ok_mono) (simp_all add: w2)
  have k: "sections ed1 = sections ed0"
    "\<And>r. r < next_ref w0 \<Longrightarrow> (\<forall>sid. write_sections ed0 sid \<noteq> Some r) \<Longrightarrow> heap w1 r = heap w0 r"
    using inv(2) unfolding reads_kept_def st1 st0 fst_conv snd_conv by blast+
  show "sections (snd st') = sections (snd st)"
    using k(1) by (simp add: w2 st0)
  note o = cache_okD [OF ok [unfolded st0]]
  show "heap (fst st') r = heap (fst st) r" if "sections (snd st) sid = Some r" for sid r
  proof -
    have s: "sections ed0 sid = Some r"
      using that by (simp add: st0)
    have "heap w1 r = heap w0 r"
      using o(1) [OF s] o(4) [OF s] by (intro k(2)) simp_all
    then show ?thesis
      by (simp add: w2 st0)
  qed
qed

section \<open>The commit does not disturb reads\<close>

lemma cache_ok_demo_buffered: "cache_ok demo_buffered"
proof -
  obtain r w ed where g: "get_block demo 1 2 3 (world0, Editor ''w'') = (r, (w, ed))"
    by (metis surj_pair)
  have "cache_ok (snd (get_block demo 1 2 3 (world0, Editor ''w'')))"
    by (intro get_block_cache_ok cache_ok_Editor)
  then have "cache_ok (w, ed)"
    by (simp add: g)
  then have "cache_ok (w, snd (set_block demo 9 1 2 3 (snd (set_block demo 8 1 2 3 ed))))"
    by (intro set_block_cache_ok)
  then show ?thesis
    by (simp add: demo_buffered_def g)
qed

text \<open>
  C2. In a state of a running program, the first loop of the commit, which makes the
  write-side sections and applies the buffered writes to them, leaves every section
  object of the read cache distinct from every write-side section, and a \<open>get_block\<close>
  after it returns what it returned before it, at every coordinate. After the whole
  commit the section cache holds the same objects with the same contents.
\<close>

theorem commit_keeps_reads:
  fixes K :: "('b, 'p, 's, 'r) collab" and st :: "('b, 'p, 's) state"
  assumes ok: "cache_ok st"
  shows "(\<forall>res st' R. update_sections K st = (res, (st', R)) \<longrightarrow>
            (\<forall>sid sid' r. sections (snd st') sid = Some r \<longrightarrow> write_sections (snd st') sid' \<noteq> Some r) \<and>
            (\<forall>x y z. fst (get_block K x y z st') = fst (get_block K x y z st)))
       \<and> (\<forall>res st'. done_editor K st = (res, st') \<longrightarrow>
            (\<forall>sid sid' r. sections (snd st') sid = Some r \<longrightarrow> write_sections (snd st') sid' \<noteq> Some r) \<and>
            sections (snd st') = sections (snd st) \<and>
            (\<forall>sid r. sections (snd st) sid = Some r \<longrightarrow> heap (fst st') r = heap (fst st) r))"
proof (intro conjI allI impI)
  fix res st' R sid sid' r
  assume u: "update_sections K st = (res, (st', R))" and s: "sections (snd st') sid = Some r"
  from u have l: "forM (update_section K) (blocks_map (snd st)) (st, []) = (res, (st', R))"
    by (simp add: update_sections_def)
  have "cache_ok (fst st', snd st')"
    using update_loop_invariants(1) [OF ok l] by simp
  from cache_okD(4) [OF this s] show "write_sections (snd st') sid' \<noteq> Some r" .
next
  fix res st' R x y z
  assume u: "update_sections K st = (res, (st', R))"
  then have l: "forM (update_section K) (blocks_map (snd st)) (st, []) = (res, (st', R))"
    by (simp add: update_sections_def)
  have "read_value K st' x y z = read_value K st x y z"
    using ok update_loop_invariants(2) [OF ok l] by (rule reads_kept_value)
  then show "fst (get_block K x y z st') = fst (get_block K x y z st)"
    by (simp add: get_block_value)
next
  fix res st' sid sid' r
  assume d: "done_editor K st = (res, st')" and s: "sections (snd st') sid = Some r"
  have "cache_ok (fst st', snd st')"
    using done_editor_cache_ok(1) [OF ok d] by simp
  from cache_okD(4) [OF this s] show "write_sections (snd st') sid' \<noteq> Some r" .
next
  fix res st'
  assume d: "done_editor K st = (res, st')"
  then show "sections (snd st') = sections (snd st)"
    by (rule done_editor_cache_ok(2) [OF ok])
next
  fix res st' sid r
  assume d: "done_editor K st = (res, st')" and s: "sections (snd st) sid = Some r"
  then show "heap (fst st') r = heap (fst st) r"
    by (rule done_editor_cache_ok(3) [OF ok])
qed

theorem commit_keeps_reads_witness:
  "cache_ok demo_buffered
   \<and> blocks_map (snd demo_buffered) = [(((0, 0), (0, 0), 0), [(8, 561), (9, 561)])]
   \<and> fst (update_sections demo demo_buffered) = Inr ()
   \<and> sections (snd (fst (snd (update_sections demo demo_buffered)))) ((0, 0), (0, 0), 0) = Some 0
   \<and> write_sections (snd (fst (snd (update_sections demo demo_buffered)))) ((0, 0), (0, 0), 0) \<noteq> Some 0
   \<and> fst (get_block demo 1 2 3 (fst (snd (update_sections demo demo_buffered)))) = Inr 7"
proof -
  let ?st' = "fst (snd (update_sections demo demo_buffered))"
  have u: "update_sections demo demo_buffered
      = (fst (update_sections demo demo_buffered), (?st', snd (snd (update_sections demo demo_buffered))))"
    by simp
  note th = commit_keeps_reads [OF cache_ok_demo_buffered, where K = demo, THEN conjunct1,
      rule_format, OF u]
  have b: "blocks_map (snd demo_buffered) = [(((0, 0), (0, 0), 0), [(8, 561), (9, 561)])]"
    by code_simp
  have r: "fst (update_sections demo demo_buffered) = Inr ()"
    by code_simp
  have s: "sections (snd ?st') ((0, 0), (0, 0), 0) = Some 0"
    by code_simp
  have g0: "fst (get_block demo 1 2 3 demo_buffered) = Inr 7"
    by code_simp
  have n: "write_sections (snd ?st') ((0, 0), (0, 0), 0) \<noteq> Some 0"
    using th [THEN conjunct1, rule_format, OF s] .
  have g: "fst (get_block demo 1 2 3 ?st') = Inr 7"
    using th [THEN conjunct2, rule_format, of 1 2 3] g0 by simp
  show ?thesis
    by (intro conjI) (rule cache_ok_demo_buffered b r s n g)+
qed

section \<open>Buffered writes are applied in order\<close>

lemma apply_updates_snoc:
  "apply_updates s (us @ [(b, j)]) = section_set_block (apply_updates s us) b j"
  by (simp add: apply_updates_def)

lemma last_write_snoc: "last_write (us @ [(b, j)]) i = (if i = j then Some b else last_write us i)"
  by (simp add: last_write_def)

lemma apply_updates_last:
  "apply_updates s us i = (case last_write us i of None \<Rightarrow> s i | Some b \<Rightarrow> b)"
proof (induction us rule: rev_induct)
  case Nil
  show ?case by (simp add: apply_updates_def last_write_def)
next
  case (snoc x us)
  obtain b j where x: "x = (b, j)"
    by (cases x)
  show ?case
    unfolding x apply_updates_snoc last_write_snoc using snoc
    by (simp add: section_set_block_def)
qed

lemma update_loop_keeps:
  fixes K :: "('b, 'p, 's, 'r) collab"
  assumes "cache_ok st" and "sid \<notin> fst ` set bm"
    and "forM (update_section K) bm (st, R) = (res, (st', R'))"
  shows "write_base K st' sid = write_base K st sid \<and>
    (\<forall>r. write_sections (snd st) sid = Some r \<longrightarrow>
       write_sections (snd st') sid = Some r \<and> heap (fst st') r = heap (fst st) r)"
  using assms
proof (induction bm arbitrary: st R)
  case Nil
  then show ?case by simp
next
  case (Cons x bm)
  obtain sid1 u1 where x: "x = (sid1, u1)"
    by (cases x)
  obtain w ed where st: "st = (w, ed)"
    by (cases st)
  obtain r1 w1 ed1 R1 where f: "update_section K (sid1, u1) ((w, ed), R) = (r1, ((w1, ed1), R1))"
    by (metis surj_pair)
  have ne: "sid \<noteq> sid1"
    using Cons.prems(2) x by auto
  have ok: "cache_ok (w, ed)"
    using Cons.prems(1) st by simp
  note ot = update_section_others [OF f ok ne]
  show ?case
  proof (cases r1)
    case (Inl e)
    then have "st' = (w1, ed1)"
      using Cons.prems(3) f x st by simp
    then show ?thesis
      using ot st by simp
  next
    case (Inr v)
    have rest: "forM (update_section K) bm ((w1, ed1), R1) = (res, (st', R'))"
      using Cons.prems(3) f x st Inr by simp
    have ok1: "cache_ok (w1, ed1)"
      using f ok by (rule update_section_cache_ok)
    have "sid \<notin> fst ` set bm"
      using Cons.prems(2) by simp
    note ih = Cons.IH [OF ok1 this rest]
    show ?thesis
      using ih ot st by simp
  qed
qed

lemma update_loop_applied:
  fixes K :: "('b, 'p, 's, 'r) collab"
  assumes "cache_ok st" and "distinct (map fst bm)" and "(sid, u) \<in> set bm"
    and "forM (update_section K) bm (st, R) = (Inr (), (st', R'))"
  shows "\<exists>r s. write_sections (snd st') sid = Some r \<and> write_base K st sid = Inr s \<and>
           heap (fst st') r = apply_updates s u"
  using assms
proof (induction bm arbitrary: st R)
  case Nil
  then show ?case by simp
next
  case (Cons x bm)
  obtain sid1 u1 where x: "x = (sid1, u1)"
    by (cases x)
  obtain w ed where st: "st = (w, ed)"
    by (cases st)
  obtain r1 w1 ed1 R1 where f: "update_section K (sid1, u1) ((w, ed), R) = (r1, ((w1, ed1), R1))"
    by (metis surj_pair)
  have ok: "cache_ok (w, ed)"
    using Cons.prems(1) st by simp
  have ok1: "cache_ok (w1, ed1)"
    using f ok by (rule update_section_cache_ok)
  have r1: "r1 = Inr ()"
    using Cons.prems(4) f x st by (cases r1) simp_all
  have rest: "forM (update_section K) bm ((w1, ed1), R1) = (Inr (), (st', R'))"
    using Cons.prems(4) f x st r1 by simp
  have d: "distinct (map fst bm)" "sid1 \<notin> fst ` set bm"
    using Cons.prems(2) x by simp_all
  show ?case
  proof (cases "(sid, u) = x")
    case True
    then have same: "sid1 = sid" "u1 = u"
      using x by simp_all
    from f obtain r where
      w1: "write_sections ed1 = (write_sections ed)(sid1 \<mapsto> r)"
      and s: "\<exists>s. write_base K (w, ed) sid1 = Inr s \<and> heap w1 r = apply_updates s u1"
      by (rule update_section_effectE) (use r1 in blast)
    from s obtain s where s: "write_base K (w, ed) sid = Inr s" "heap w1 r = apply_updates s u"
      using same by blast
    have here: "write_sections ed1 sid = Some r"
      using w1 same by simp
    have "sid \<notin> fst ` set bm"
      using d(2) same by simp
    from update_loop_keeps [OF ok1 this rest] here
    have "write_sections (snd st') sid = Some r \<and> heap (fst st') r = heap w1 r"
      by simp
    then show ?thesis
      using s st by auto
  next
    case False
    then have m: "(sid, u) \<in> set bm"
      using Cons.prems(3) by simp
    then have ne: "sid \<noteq> sid1"
      using d(2) by force
    from Cons.IH [OF ok1 d(1) m rest] obtain r s where
      "write_sections (snd st') sid = Some r" "write_base K (w1, ed1) sid = Inr s"
      "heap (fst st') r = apply_updates s u"
      by blast
    moreover have "write_base K (w1, ed1) sid = write_base K (w, ed) sid"
      using update_section_others(1) [OF f ok ne] .
    ultimately show ?thesis
      using st by auto
  qed
qed

lemma set_block_appends:
  assumes "indexer K x y z = Inr (rc, cc, yl, bi)"
  shows "map_of (blocks_map (snd (set_block K v x y z ed))) =
         (map_of (blocks_map ed))((rc, cc, yl) \<mapsto>
            (case map_of (blocks_map ed) (rc, cc, yl) of None \<Rightarrow> [] | Some l \<Rightarrow> l) @ [(v, bi)])"
  using assms by (auto simp: set_block_def dict_append_map_of fun_eq_iff)

lemma done_editor_applied:
  fixes K :: "('b, 'p, 's, 'r) collab"
  assumes ok: "cache_ok st" and d: "done_editor K st = (Inr (), st')"
    and m: "(sid, updates) \<in> set (blocks_map (snd st))"
  shows "\<exists>r s. write_sections (snd st') sid = Some r \<and> write_base K st sid = Inr s \<and>
           heap (fst st') r = apply_updates s updates"
proof -
  obtain r1 w1 ed1 R1 where u: "update_sections K st = (r1, ((w1, ed1), R1))"
    by (metis surj_pair)
  have r1: "r1 = Inr ()"
    using d u by (cases r1) (simp_all add: done_editor_def)
  have l: "forM (update_section K) (blocks_map (snd st)) (st, []) = (Inr (), ((w1, ed1), R1))"
    using u r1 by (simp add: update_sections_def)
  have dist: "distinct (map fst (blocks_map (snd st)))"
    using cache_okD(5) [of "fst st" "snd st"] ok by simp
  from update_loop_applied [OF ok dist m l] obtain r s where
    a: "write_sections ed1 sid = Some r" "write_base K st sid = Inr s"
    "heap w1 r = apply_updates s updates"
    by auto
  obtain r2 w2 where f: "forM (write_region K ed1) R1 w1 = (r2, w2)"
    by (metis surj_pair)
  have "st' = (w2, ed1)"
    using d u r1 f by (simp add: done_editor_def)
  then show ?thesis
    using a region_loop_heap(1) [OF f] by auto
qed

text \<open>
  C7. A buffered write is appended to the list of its section id, and the other lists
  are left alone. In a state of a running program, a commit that returns has, for every
  section id of the pending buffer, a write-side section whose contents are the buffered
  writes of that id applied in the order of the list to the contents the commit started
  from; so at every index the section holds the last value written there, and what it
  held before at the indices never written.
\<close>

theorem buffered_writes_in_order:
  fixes K :: "('b, 'p, 's, 'r) collab" and st :: "('b, 'p, 's) state"
  shows "(\<forall>rc cc yl bi. indexer K x y z = Inr (rc, cc, yl, bi) \<longrightarrow>
            map_of (blocks_map (snd (set_block K v x y z ed))) =
            (map_of (blocks_map ed))((rc, cc, yl) \<mapsto>
               (case map_of (blocks_map ed) (rc, cc, yl) of None \<Rightarrow> [] | Some l \<Rightarrow> l) @ [(v, bi)]))
    \<and> (cache_ok st \<longrightarrow>
         (\<forall>st' sid updates. done_editor K st = (Inr (), st') \<longrightarrow>
            (sid, updates) \<in> set (blocks_map (snd st)) \<longrightarrow>
            (\<exists>r s. write_sections (snd st') sid = Some r \<and> write_base K st sid = Inr s \<and>
                   heap (fst st') r = apply_updates s updates \<and>
                   (\<forall>i. heap (fst st') r i = (case last_write updates i of None \<Rightarrow> s i | Some b \<Rightarrow> b)))))"
proof (intro conjI allI impI)
  fix rc cc yl bi
  assume "indexer K x y z = Inr (rc, cc, yl, bi)"
  then show "map_of (blocks_map (snd (set_block K v x y z ed))) =
            (map_of (blocks_map ed))((rc, cc, yl) \<mapsto>
               (case map_of (blocks_map ed) (rc, cc, yl) of None \<Rightarrow> [] | Some l \<Rightarrow> l) @ [(v, bi)])"
    by (rule set_block_appends)
next
  fix st' sid updates
  assume "cache_ok st" "done_editor K st = (Inr (), st')" "(sid, updates) \<in> set (blocks_map (snd st))"
  then obtain r s where a: "write_sections (snd st') sid = Some r" "write_base K st sid = Inr s"
    "heap (fst st') r = apply_updates s updates"
    using done_editor_applied by blast
  have "\<forall>i. heap (fst st') r i = (case last_write updates i of None \<Rightarrow> s i | Some b \<Rightarrow> b)"
    using a(3) by (simp add: apply_updates_last)
  with a show "\<exists>r s. write_sections (snd st') sid = Some r \<and> write_base K st sid = Inr s \<and>
                   heap (fst st') r = apply_updates s updates \<and>
                   (\<forall>i. heap (fst st') r i = (case last_write updates i of None \<Rightarrow> s i | Some b \<Rightarrow> b))"
    by blast
qed

theorem buffered_writes_in_order_witness:
  "block_to_id_index anvil 1 2 3 = Inr ((0, 0), (0, 0), 0, 561)
   \<and> cache_ok demo_buffered
   \<and> fst (done_editor demo demo_buffered) = Inr ()
   \<and> (((0, 0), (0, 0), 0), [(8, 561), (9, 561)]) \<in> set (blocks_map (snd demo_buffered))
   \<and> last_write [(8 :: nat, 561), (9, 561)] 561 = Some 9
   \<and> last_write [(8 :: nat, 561), (9, 561)] 0 = None
   \<and> (\<exists>r. write_sections (snd (snd (done_editor demo demo_buffered))) ((0, 0), (0, 0), 0) = Some r \<and>
          heap (fst (snd (done_editor demo demo_buffered))) r 561 = 9 \<and>
          heap (fst (snd (done_editor demo demo_buffered))) r 0 = 7)"
proof -
  let ?sid = "((0, 0), (0, 0), 0) :: section_id"
  let ?us = "[(8 :: nat, 561 :: int), (9, 561)]"
  let ?st' = "snd (done_editor demo demo_buffered)"
  have i: "block_to_id_index anvil 1 2 3 = Inr ((0, 0), (0, 0), 0, 561)"
    by code_simp
  have r: "fst (done_editor demo demo_buffered) = Inr ()"
    by code_simp
  then have d: "done_editor demo demo_buffered = (Inr (), ?st')"
    by (metis prod.collapse)
  have m: "(?sid, ?us) \<in> set (blocks_map (snd demo_buffered))"
    by code_simp
  have l1: "last_write ?us 561 = Some 9" and l2: "last_write ?us 0 = None"
    by code_simp+
  have wb: "(case write_base demo demo_buffered ?sid of Inl e \<Rightarrow> None | Inr s \<Rightarrow> Some (s 0)) = Some 7"
    by code_simp
  from buffered_writes_in_order [where K = demo and st = demo_buffered, THEN conjunct2,
      THEN mp, OF cache_ok_demo_buffered, rule_format, OF d m]
  obtain r s where a: "write_sections (snd ?st') ?sid = Some r"
    "write_base demo demo_buffered ?sid = Inr s"
    "\<forall>i. heap (fst ?st') r i = (case last_write ?us i of None \<Rightarrow> s i | Some b \<Rightarrow> b)"
    by blast
  have "s 0 = 7"
    using wb a(2) by simp
  then have "heap (fst ?st') r 561 = 9" "heap (fst ?st') r 0 = 7"
    using a(3) l1 l2 by simp_all
  with a(1) have e: "\<exists>r. write_sections (snd ?st') ?sid = Some r \<and>
          heap (fst ?st') r 561 = 9 \<and> heap (fst ?st') r 0 = 7"
    by blast
  show ?thesis
    by (intro conjI) (rule i cache_ok_demo_buffered r m l1 l2 e)+
qed

section \<open>Copies keep the states of a running program\<close>

lemma get_block_next_ref: "next_ref (fst st) \<le> next_ref (fst (snd (get_block K x y z st)))"
proof (cases "indexer K x y z")
  case (Inl e)
  then show ?thesis by (simp add: get_block_def)
next
  case (Inr a)
  obtain rc cc yl bi where a: "a = (rc, cc, yl, bi)"
    by (metis prod_cases4)
  obtain w ed where st: "st = (w, ed)"
    by (cases st)
  show ?thesis
  proof (cases "sections ed (rc, cc, yl)")
    case (Some r)
    with Inr a st show ?thesis by (simp add: get_block_def)
  next
    case None
    obtain r w' ed' where g: "get_section K (rc, cc, yl) (w, ed) = (r, (w', ed'))"
      by (metis surj_pair)
    from get_section_result(2) [OF g] Inr a st None g show ?thesis
      by (cases r) (simp_all add: get_block_def)
  qed
qed

lemma source_get_block_cache_ok:
  assumes "cache_ok (fst cs, fst (snd cs))"
  shows "cache_ok (fst (snd (source_get_block K x y z cs)), fst (snd (snd (source_get_block K x y z cs))))"
proof -
  obtain w self src where cs: "cs = (w, self, src)"
    by (metis surj_pair)
  show ?thesis
  proof (cases src)
    case None
    obtain r w' self' where g: "get_block K x y z (w, self) = (r, (w', self'))"
      by (metis surj_pair)
    have "cache_ok (snd (get_block K x y z (w, self)))"
      using assms cs by (intro get_block_cache_ok) simp
    then show ?thesis
      by (simp add: cs None source_get_block_def g)
  next
    case (Some s)
    obtain r w' s' where g: "get_block K x y z (w, s) = (r, (w', s'))"
      by (metis surj_pair)
    have "next_ref w \<le> next_ref w'"
      using get_block_next_ref [of "(w, s)" K x y z] g by simp
    then have "cache_ok (w', self)"
      using assms cs by (intro cache_ok_mono [of w self w' self]) simp_all
    then show ?thesis
      by (simp add: cs Some source_get_block_def g)
  qed
qed

lemma self_set_block_cache_ok:
  assumes "cache_ok (fst cs, fst (snd cs))"
  shows "cache_ok (fst (snd (self_set_block K b x y z cs)), fst (snd (snd (self_set_block K b x y z cs))))"
proof -
  obtain w self src where cs: "cs = (w, self, src)"
    by (metis surj_pair)
  have "cache_ok (w, snd (set_block K b x y z self))"
    using assms cs by (intro set_block_cache_ok) simp
  then show ?thesis
    by (auto simp: cs self_set_block_def split: prod.splits)
qed

lemma forM_cache_ok:
  fixes s :: "('b, 'p, 's) copy_state"
  assumes "\<And>x s. cache_ok (fst s, fst (snd s)) \<Longrightarrow> cache_ok (fst (snd (f x s)), fst (snd (snd (f x s))))"
    and "cache_ok (fst s, fst (snd s))"
  shows "cache_ok (fst (snd (forM f xs s)), fst (snd (snd (forM f xs s))))"
proof -
  let ?P = "\<lambda>cs :: ('b, 'p, 's) copy_state. cache_ok (fst cs, fst (snd cs))"
  have "?P (snd (forM f xs s))"
  proof (rule forM_preserves [where P = ?P])
    show "?P s" by (rule assms(2))
  next
    fix x and s' :: "('b, 'p, 's) copy_state"
    assume "?P s'"
    then show "?P (snd (f x s'))" by (rule assms(1))
  qed
  then show ?thesis .
qed

lemma copy_block_cache_ok:
  fixes K :: "('b, 'p, 's, 'r) collab" and cs :: "('b, 'p, 's) copy_state"
  assumes "cache_ok (fst cs, fst (snd cs))"
  shows "cache_ok (fst (snd (copy_block K source dest rep dx dy dz cs)),
                   fst (snd (snd (copy_block K source dest rep dx dy dz cs))))"
proof -
  obtain sx sy sz tx ty tz where sd: "source = (sx, sy, sz)" "dest = (tx, ty, tz)"
    by (metis prod_cases3)
  obtain r cs' where g: "source_get_block K (sx + dx) (sy + dy) (sz + dz) cs = (r, cs')"
    by (cases "source_get_block K (sx + dx) (sy + dy) (sz + dz) cs")
  have p: "cache_ok (fst cs', fst (snd cs'))"
    using source_get_block_cache_ok [OF assms, of K "sx + dx" "sy + dy" "sz + dz"] g by simp
  show ?thesis
  proof (cases r)
    case (Inl e)
    with sd g p show ?thesis by (simp add: copy_block_def)
  next
    case (Inr block)
    let ?f = "\<lambda>(rx, ry, rz). self_set_block K block (tx + dx + rx) (ty + dy + ry) (tz + dz + rz)"
    have step: "cache_ok (fst (snd (?f x s)), fst (snd (snd (?f x s))))"
      if "cache_ok (fst s, fst (snd s))" for x and s :: "('b, 'p, 's) copy_state"
      using self_set_block_cache_ok [OF that] by (cases x) simp
    have a: "cache_ok (fst (snd (forM ?f (items rep) cs')), fst (snd (snd (forM ?f (items rep) cs'))))"
      using step p by (rule forM_cache_ok)
    have b: "cache_ok (fst (snd (self_set_block K block (tx + dx) (ty + dy) (tz + dz) cs')),
        fst (snd (snd (self_set_block K block (tx + dx) (ty + dy) (tz + dz) cs'))))"
      using p by (rule self_set_block_cache_ok)
    show ?thesis
      using sd g Inr a b by (simp add: copy_block_def)
  qed
qed

lemma copy_voxels_cache_ok:
  fixes K :: "('b, 'p, 's, 'r) collab" and cs :: "('b, 'p, 's) copy_state"
  assumes "cache_ok (fst cs, fst (snd cs))"
  shows "cache_ok (fst (snd (copy_voxels K source dest size3 rep cs)),
                   fst (snd (snd (copy_voxels K source dest size3 rep cs))))"
proof -
  obtain wx wy wz where s: "size3 = (wx, wy, wz)"
    by (metis prod_cases3)
  let ?z = "\<lambda>dx dy. forM (\<lambda>dz. copy_block K source dest rep dx dy dz) (py_range wz)"
  let ?y = "\<lambda>dx. forM (\<lambda>dy. ?z dx dy) (py_range wy)"
  have z: "cache_ok (fst (snd (?z dx dy s)), fst (snd (snd (?z dx dy s))))"
    if "cache_ok (fst s, fst (snd s))" for dx dy and s :: "('b, 'p, 's) copy_state"
    using copy_block_cache_ok that by (rule forM_cache_ok)
  have y: "cache_ok (fst (snd (?y dx s)), fst (snd (snd (?y dx s))))"
    if "cache_ok (fst s, fst (snd s))" for dx and s :: "('b, 'p, 's) copy_state"
    using z that by (rule forM_cache_ok)
  have "cache_ok (fst (snd (forM ?y (py_range wx) cs)), fst (snd (snd (forM ?y (py_range wx) cs))))"
    using y assms by (rule forM_cache_ok)
  then show ?thesis
    by (simp add: copy_voxels_def s)
qed

lemma relocate_cache_ok:
  assumes "cache_ok (fst cs, fst (snd cs))"
  shows "cache_ok (fst (snd (relocate K source dest size3 cs)),
                   fst (snd (snd (relocate K source dest size3 cs))))"
proof -
  obtain w self src where cs: "cs = (w, self, src)"
    by (metis surj_pair)
  have ok: "cache_ok (w, self)"
    using assms cs by simp
  have keep: "cache_ok (w, self')"
    if "sections self' = sections self" "write_sections self' = write_sections self"
      "blocks_map self' = blocks_map self" for self'
    using ok _ that by (rule cache_ok_mono) simp
  show ?thesis
    by (cases src) (auto simp: cs relocate_def Let_def split: prod.splits intro!: keep)
qed

lemma copy_blocks_cache_ok:
  fixes K :: "('b, 'p, 's, 'r) collab" and st :: "('b, 'p, 's) state"
  assumes "cache_ok st"
  shows "cache_ok (snd (copy_blocks K source dest size3 rep world_source st))"
proof -
  obtain w self where st: "st = (w, self)"
    by (cases st)
  let ?cs0 = "(w, self, if truthy world_source then Some (Editor (items world_source)) else None)"
  let ?run = "copy_blocks_run K source dest size3 rep world_source (w, self)"
  obtain r1 cs1 where v: "copy_voxels K source dest size3 rep ?cs0 = (r1, cs1)"
    by (cases "copy_voxels K source dest size3 rep ?cs0")
  have p1: "cache_ok (fst cs1, fst (snd cs1))"
    using copy_voxels_cache_ok [of ?cs0 K source dest size3 rep] assms st v by simp
  obtain r2 cs2 where l: "relocate K source dest size3 cs1 = (r2, cs2)"
    by (cases "relocate K source dest size3 cs1")
  have p2: "cache_ok (fst cs2, fst (snd cs2))"
    using relocate_cache_ok [OF p1, of K source dest size3] l by simp
  obtain w2 self2 src2 where c2: "cs2 = (w2, self2, src2)"
    by (cases cs2)
  obtain r3 self3 where ra: "repeat_all K (items rep) self2 = (r3, self3)"
    by (cases "repeat_all K (items rep) self2")
  have f3: "sections self3 = sections self2" "write_sections self3 = write_sections self2"
    "blocks_map self3 = blocks_map self2"
    using ra by (auto simp: repeat_all_def Let_def split: prod.splits)
  have p2': "cache_ok (w2, self2)"
    using p2 c2 by simp
  have p3: "cache_ok (w2, self3)"
    using p2' _ f3 by (rule cache_ok_mono) simp
  have run: "cache_ok (fst (snd ?run), fst (snd (snd ?run)))"
  proof (cases r1)
    case (Inl e)
    with v p1 show ?thesis by (simp add: copy_blocks_run_def)
  next
    case r1: (Inr u1)
    show ?thesis
    proof (cases r2)
      case (Inl e)
      with v r1 l p2 show ?thesis by (simp add: copy_blocks_run_def)
    next
      case (Inr u2)
      with v r1 l c2 ra p2' p3 show ?thesis by (simp add: copy_blocks_run_def)
    qed
  qed
  then show ?thesis
    by (auto simp: copy_blocks_def st split: prod.splits)
qed

end
